theory Spec2Isabelle
  imports Complex_Main "HOL-Library.Sublist" "HOL-Library.AList"
begin

section \<open>Strings and numbers of the runtime\<close>

text \<open>
  JavaScript strings are modelled as \<open>string\<close>. Array lengths, loop counters, HTTP status
  codes and millisecond delays are natural numbers. The template literals of the source print
  such numbers in decimal: \<open>showNat\<close>.
\<close>

definition digit :: "nat \<Rightarrow> char" where
  "digit d = char_of (48 + d)"

function showNat :: "nat \<Rightarrow> string" where
  "showNat n = (if n < 10 then [digit n] else showNat (n div 10) @ [digit (n mod 10)])"
  by pat_completeness auto
termination
  by (relation "measure (\<lambda>n. n)") auto

declare showNat.simps [simp del]

text \<open>The value of a decimal numeral; used to show that \<open>showNat\<close> loses nothing.\<close>

definition digitValue :: "char \<Rightarrow> nat" where
  "digitValue c = of_char c - 48"

definition readNat :: "string \<Rightarrow> nat" where
  "readNat s = foldl (\<lambda>a c. 10 * a + digitValue c) 0 s"

text \<open>
  The counts of a request (\<open>postCount\<close>, \<open>skipPosts\<close>, \<open>commentsPerPost\<close>) are values
  of the type \<open>number\<close>: the schema checks their bounds and nothing else, so they need not be
  whole. They are modelled as rationals. The arithmetic that the source does on them (one
  addition, one subtraction, comparisons with array lengths) is exact on rationals; it is the
  arithmetic of JavaScript wherever the doubles involved are added without rounding, as whole
  numbers and halves within the bounds of the schema are.
\<close>

type_synonym number = rat

definition whole :: "number \<Rightarrow> bool" where
  "whole q \<longleftrightarrow> q = of_int \<lfloor>q\<rfloor>"

text \<open>\<open>ToIntegerOrInfinity\<close>, which rounds towards zero.\<close>

definition toInteger :: "number \<Rightarrow> int" where
  "toInteger q = (if q < 0 then \<lceil>q\<rceil> else \<lfloor>q\<rfloor>)"

text \<open>
  \<open>Number.prototype.toString\<close> in decimal notation, for the numbers JavaScript prints so
  (below \<open>1e21\<close>, not below \<open>1e-6\<close>) and whose decimal expansion ends within 17 digits.
\<close>

fun showFraction :: "nat \<Rightarrow> number \<Rightarrow> string" where
  "showFraction 0 f = []"
| "showFraction (Suc k) f =
     (if f = 0 then []
      else digit (nat \<lfloor>10 * f\<rfloor>) # showFraction k (10 * f - of_int \<lfloor>10 * f\<rfloor>))"

definition showNumber :: "number \<Rightarrow> string" where
  "showNumber q =
     (if q < 0 then ''-'' else [])
     @ showNat (nat \<lfloor>\<bar>q\<bar>\<rfloor>)
     @ (if whole q then [] else ''.'' @ showFraction 17 (\<bar>q\<bar> - of_int \<lfloor>\<bar>q\<bar>\<rfloor>))"

text \<open>\<open>Array.prototype.slice\<close> with both bounds given.\<close>

definition sliceIndex :: "int \<Rightarrow> int \<Rightarrow> int" where
  "sliceIndex len relative = (if relative < 0 then max (len + relative) 0 else min relative len)"

definition slice :: "number \<Rightarrow> number \<Rightarrow> 'a list \<Rightarrow> 'a list" where
  "slice start end xs =
     (let len = int (length xs);
          k = sliceIndex len (toInteger start);
          final = sliceIndex len (toInteger end)
      in take (nat (final - k)) (drop (nat k) xs))"

text \<open>
  \<open>String.prototype.includes\<close>, \<open>endsWith\<close>, \<open>toLowerCase\<close> (on the capitals of ASCII
  and Latin-1, the characters a \<open>char\<close> can hold) and \<open>replace\<close> with a string pattern,
  which replaces the first occurrence only.
\<close>

definition includesStr :: "string \<Rightarrow> string \<Rightarrow> bool" where
  "includesStr s sub = sublist sub s"

definition endsWith :: "string \<Rightarrow> string \<Rightarrow> bool" where
  "endsWith s ext = suffix ext s"

definition lowerChar :: "char \<Rightarrow> char" where
  "lowerChar c =
     (let k = (of_char c :: nat)
      in if (65 \<le> k \<and> k \<le> 90) \<or> (192 \<le> k \<and> k \<le> 222 \<and> k \<noteq> 215)
         then char_of (k + 32) else c)"

definition toLowerCase :: "string \<Rightarrow> string" where
  "toLowerCase s = map lowerChar s"

fun replaceFirst :: "string \<Rightarrow> string \<Rightarrow> string \<Rightarrow> string" where
  "replaceFirst pat rep [] = (if pat = [] then rep else [])"
| "replaceFirst pat rep (c # cs) =
     (if prefix pat (c # cs) then rep @ drop (length pat) (c # cs)
      else c # replaceFirst pat rep cs)"

section \<open>Data model (shared/schema.ts and the Reddit JSON payloads)\<close>

datatype sortBy = Top | New | Hot

datatype exportMode = Clean | Flat_labels

fun sortName :: "sortBy \<Rightarrow> string" where
  "sortName Top = ''top''"
| "sortName New = ''new''"
| "sortName Hot = ''hot''"

record scrapeConfig =
  subreddit :: string
  postCount :: number
  skipPosts :: number
  commentsPerPost :: number
  sortBy :: sortBy
  exportMode :: exportMode

text \<open>
  What \<open>scrapeConfigSchema\<close> accepts: \<open>z.number()\<close> with \<open>min\<close> and \<open>max\<close>, and no
  \<open>int()\<close>.
\<close>

definition scrapeConfigSchema :: "scrapeConfig \<Rightarrow> bool" where
  "scrapeConfigSchema c \<longleftrightarrow>
     1 \<le> length (subreddit c) \<and>
     1 \<le> postCount c \<and> postCount c \<le> 1000 \<and>
     0 \<le> skipPosts c \<and> skipPosts c \<le> 5000 \<and>
     1 \<le> commentsPerPost c \<and> commentsPerPost c \<le> 200"

record RedditPost =
  post_id :: string
  title :: string
  selftext :: string
  permalink :: string
  url :: "string option"
  created_utc :: int
  score :: int

record RedditComment =
  rank :: nat
  comment_id :: string
  body :: string
  comment_score :: int

datatype exportItem =
  CleanExportItem RedditPost "RedditComment list"
| FlatExportItem "(string \<times> string) list"

text \<open>
  A member of a post in a listing that the code only tests against \<open>undefined\<close> and
  \<open>null\<close>.
\<close>

datatype member = Undefined | Null | Present

text \<open>
  The \<open>data\<close> object of a child of a listing, read through the type assertions of the
  source (\<open>as string\<close>, \<open>as number\<close>): a member has the asserted type, and a member the
  code tests for absence or falsity is an option.
\<close>

record postData =
  pd_id :: string
  pd_title :: string
  pd_selftext :: "string option"
  pd_permalink :: string
  pd_url :: "string option"
  pd_created_utc :: int
  pd_score :: int
  pd_post_hint :: "string option"
  pd_is_gallery :: "bool option"
  pd_preview :: member
  pd_media :: member

record commentData =
  cd_id :: string
  cd_body :: "string option"
  cd_score :: int

text \<open>
  \<open>listing_children = None\<close> is a falsy \<open>children\<close> member; \<open>listing_after\<close> is the
  cursor, \<open>None\<close> for \<open>null\<close>.
\<close>

record listing =
  listing_children :: "postData list option"
  listing_after :: "string option"

text \<open>
  An element of the array a permalink answers with: an object whose \<open>data.children\<close> is an
  array, an object whose \<open>data\<close> has no \<open>children\<close>, a value without \<open>data\<close>, or
  \<open>null\<close>.
\<close>

datatype segment = CommentListing "commentData list" | NoChildren | NoData | NullSegment

text \<open>
  A parsed response body: an object with a \<open>data\<close> member (a listing), an array of
  segments, \<open>null\<close>, or any other JSON value, which has no \<open>data\<close>.
\<close>

datatype body = Listing listing | Thread "segment list" | JsonNull | Unshaped

text \<open>A thrown value: an \<open>Error\<close> with its message, or something that is no \<open>Error\<close>.\<close>

datatype exn = Error string | NonError

text \<open>
  The \<open>TypeError\<close>s of the run time, with the messages Node gives them: reading a member
  of \<open>undefined\<close> or \<open>null\<close>, and iterating over \<open>children\<close> that is \<open>undefined\<close>.
\<close>

definition cannotRead :: "string \<Rightarrow> string \<Rightarrow> exn" where
  "cannotRead object member =
     Error (''Cannot read properties of '' @ object @ '' (reading '' @ [CHR 0x27] @ member
            @ [CHR 0x27] @ '')'')"

definition notIterable :: exn where
  "notIterable = Error ''children is not iterable''"

text \<open>
  What \<open>fetch\<close> resolves to: the status and what \<open>response.json()\<close> settles to.
\<close>

record response =
  status :: nat
  json :: "exn + body"

definition ok :: "response \<Rightarrow> bool" where
  "ok r \<longleftrightarrow> 200 \<le> status r \<and> status r \<le> 299"

text \<open>A fetch answered with status 200 and a body that parses.\<close>

definition okResponse :: "body \<Rightarrow> exn + response" where
  "okResponse b = Inr \<lparr> status = 200, json = Inr b \<rparr>"

text \<open>A response with an error status; its body is a page that is no JSON.\<close>

definition statusResponse :: "nat \<Rightarrow> exn + response" where
  "statusResponse s = Inr \<lparr> status = s, json = Inl (Error ''Unexpected token <'') \<rparr>"

text \<open>
  The network: the outcome of the \<open>n\<close>-th request of a run, given its URL. \<open>Inl\<close> is a
  rejected \<open>fetch\<close>.
\<close>

type_synonym net = "nat \<Rightarrow> string \<Rightarrow> exn + response"

datatype event =
  Progress string number "nat option" "nat option"
| Complete string "exportItem list"
| ErrorEvent string

text \<open>
  What a run does to the outside, in order: a request with its outcome, a \<open>delay\<close>, an
  event written to the stream, a line on the error console, and the calls on \<open>res\<close>.
\<close>

datatype effect =
  Fetch string "exn + response"
| Sleep nat
| Emit event
| ConsoleError string exn
| Respond400 string
| FlushHeaders
| End

section \<open>fetchRedditJSON\<close>

definition DELAY_BETWEEN_REQUESTS :: nat where
  "DELAY_BETWEEN_REQUESTS = 2000"

definition rateLimitedMessage :: string where
  "rateLimitedMessage = ''Rate limited by Reddit. Please wait a few minutes and try again.''"

definition blockedMessage :: string where
  "blockedMessage = ''Reddit is blocking requests from this server. This is a known limitation when running from cloud environments. The app works correctly when run locally.''"

text \<open>The body of the \<open>try\<close> block for one attempt, up to its \<open>catch\<close>.\<close>

datatype tried = Return "exn + body" | Continue429 nat | Break403 | Throw exn

definition tryBlock :: "exn + response \<Rightarrow> nat \<Rightarrow> nat \<Rightarrow> tried" where
  "tryBlock r retries attempt =
     (case r of
        Inl e \<Rightarrow> Throw e
      | Inr response \<Rightarrow>
          if ok response then Return (json response)
          else if status response = 429 then
            (if attempt < retries then Continue429 (5000 * (attempt + 1))
             else Throw (Error rateLimitedMessage))
          else if status response = 403 then Break403
          else Throw (Error (''Reddit API error: '' @ showNat (status response))))"

text \<open>The test of the \<open>catch\<close> block: an \<open>Error\<close> whose message mentions Reddit.\<close>

fun mentionsReddit :: "exn \<Rightarrow> bool" where
  "mentionsReddit (Error m) = includesStr m ''Reddit''"
| "mentionsReddit NonError = False"

fun asError :: "exn \<Rightarrow> exn" where
  "asError (Error m) = Error m"
| "asError NonError = Error ''Network error''"

text \<open>
  The inner loop over the attempts against one URL. It ends by returning from the whole
  function (\<open>Returned\<close>, with what \<open>response.json()\<close> settles to) or by leaving the loop
  with the current \<open>lastError\<close> (\<open>Exhausted\<close>).
\<close>

datatype attempts = Returned "exn + body" | Exhausted "exn option"

fun andThen :: "effect list \<Rightarrow> 'a \<times> effect list \<times> nat \<Rightarrow> 'a \<times> effect list \<times> nat" where
  "andThen io (x, tr, n) = (x, io @ tr, n)"

function attemptLoop ::
  "net \<Rightarrow> string \<Rightarrow> nat \<Rightarrow> nat \<Rightarrow> exn option \<Rightarrow> nat \<Rightarrow> attempts \<times> effect list \<times> nat" where
  "attemptLoop net tryUrl retries attempt lastError n =
     (if attempt \<le> retries then
        (case tryBlock (net n tryUrl) retries attempt of
           Return j \<Rightarrow> (Returned j, [Fetch tryUrl (net n tryUrl)], Suc n)
         | Continue429 ms \<Rightarrow>
             andThen [Fetch tryUrl (net n tryUrl), Sleep ms]
               (attemptLoop net tryUrl retries (Suc attempt) lastError (Suc n))
         | Break403 \<Rightarrow>
             (Exhausted (Some (Error blockedMessage)), [Fetch tryUrl (net n tryUrl)], Suc n)
         | Throw error \<Rightarrow>
             if mentionsReddit error then
               (Exhausted (Some error), [Fetch tryUrl (net n tryUrl)], Suc n)
             else if attempt < retries then
               andThen [Fetch tryUrl (net n tryUrl), Sleep 2000]
                 (attemptLoop net tryUrl retries (Suc attempt) (Some (asError error)) (Suc n))
             else
               andThen [Fetch tryUrl (net n tryUrl)]
                 (attemptLoop net tryUrl retries (Suc attempt) (Some (asError error)) (Suc n)))
      else (Exhausted lastError, [], n))"
  by pat_completeness auto
termination
  by (relation "measure (\<lambda>(net, tryUrl, retries, attempt, lastError, n). Suc retries - attempt)")
     auto

declare attemptLoop.simps [simp del]

text \<open>The outer loop over the URLs, and the final \<open>throw\<close>.\<close>

fun urlLoop ::
  "net \<Rightarrow> string list \<Rightarrow> nat \<Rightarrow> exn option \<Rightarrow> nat \<Rightarrow> (exn + body) \<times> effect list \<times> nat" where
  "urlLoop net [] retries lastError n =
     (Inl (case lastError of Some e \<Rightarrow> e | None \<Rightarrow> Error ''Failed to fetch from Reddit''), [], n)"
| "urlLoop net (tryUrl # urls) retries lastError n =
     (case attemptLoop net tryUrl retries 0 lastError n of
        (Returned j, tr, n') \<Rightarrow> (j, tr, n')
      | (Exhausted lastError', tr, n') \<Rightarrow> andThen tr (urlLoop net urls retries lastError' n'))"

definition oldUrl :: "string \<Rightarrow> string" where
  "oldUrl u = replaceFirst ''https://www.reddit.com'' ''https://old.reddit.com'' u"

definition fetchRedditJSON ::
  "net \<Rightarrow> string \<Rightarrow> nat \<Rightarrow> nat \<Rightarrow> (exn + body) \<times> effect list \<times> nat" where
  "fetchRedditJSON net u retries n = urlLoop net [u, oldUrl u] retries None n"

section \<open>isMediaPost and extractPost\<close>

definition mediaHints :: "string list" where
  "mediaHints = [''image'', ''hosted:video'', ''rich:video'', ''gallery'']"

definition mediaExtensions :: "string list" where
  "mediaExtensions = [''.jpg'', ''.jpeg'', ''.png'', ''.gif'', ''.webp'']"

definition isMediaPost :: "postData \<Rightarrow> bool" where
  "isMediaPost post =
     (if (case pd_post_hint post of
            None \<Rightarrow> False
          | Some postHint \<Rightarrow> postHint \<noteq> [] \<and> postHint \<in> set mediaHints) then True
      else if pd_is_gallery post = Some True then True
      else if (let u = (case pd_url post of None \<Rightarrow> [] | Some s \<Rightarrow> s)
               in list_ex (\<lambda>ext. endsWith (toLowerCase u) ext) mediaExtensions) then True
      else if pd_preview post \<noteq> Undefined \<and> pd_preview post \<noteq> Null then True
      else if pd_media post \<noteq> Undefined \<and> pd_media post \<noteq> Null then True
      else False)"

definition extractPost :: "postData \<Rightarrow> RedditPost" where
  "extractPost p =
     \<lparr> post_id = pd_id p,
       title = pd_title p,
       selftext = (case pd_selftext p of None \<Rightarrow> [] | Some s \<Rightarrow> s),
       permalink = pd_permalink p,
       url = pd_url p,
       created_utc = pd_created_utc p,
       score = pd_score p \<rparr>"

section \<open>fetchPosts\<close>

definition maxAttempts :: nat where
  "maxAttempts = 100"

text \<open>A cursor is truthy when it is a non-empty string.\<close>

fun truthy :: "string option \<Rightarrow> bool" where
  "truthy None = False"
| "truthy (Some s) = (s \<noteq> [])"

definition listingUrl :: "string \<Rightarrow> sortBy \<Rightarrow> string option \<Rightarrow> string" where
  "listingUrl subredditName sortMode after =
     ''https://www.reddit.com/r/'' @ subredditName @ ''/'' @ sortName sortMode @ ''.json?limit=100''
     @ (if sortMode = Top then ''&t=all'' else [])
     @ (case after of
          None \<Rightarrow> []
        | Some a \<Rightarrow> if a \<noteq> [] then ''&after='' @ a else [])"

text \<open>The progress event sent after a post has been pushed onto \<open>allPosts\<close>.\<close>

definition postProgress :: "nat \<Rightarrow> number \<Rightarrow> event" where
  "postProgress len skipCount =
     (let collectedAfterSkip = max 0 (of_nat len - skipCount)
      in if of_nat len \<le> skipCount then
           Progress (''Skipping posts... ('' @ showNat len @ ''/'' @ showNumber skipCount @ '')'')
             0 None None
         else
           Progress (''Found '' @ showNumber collectedAfterSkip @ '' text posts (skipped ''
                     @ showNumber skipCount @ '')...'')
             collectedAfterSkip None None)"

text \<open>The \<open>for\<close> loop over the children of one page.\<close>

fun scanChildren ::
  "number \<Rightarrow> number \<Rightarrow> postData list \<Rightarrow> RedditPost list \<Rightarrow> RedditPost list \<times> effect list"
  where
  "scanChildren skipCount totalNeeded [] allPosts = (allPosts, [])"
| "scanChildren skipCount totalNeeded (child # rest) allPosts =
     (if \<not> isMediaPost child then
        (let allPosts' = allPosts @ [extractPost child];
             ev = Emit (postProgress (length allPosts') skipCount)
         in if of_nat (length allPosts') \<ge> totalNeeded then (allPosts', [ev])
            else (case scanChildren skipCount totalNeeded rest allPosts' of
                    (r, tr) \<Rightarrow> (r, ev # tr)))
      else scanChildren skipCount totalNeeded rest allPosts)"

text \<open>The \<open>while\<close> loop over the pages; \<open>Inl\<close> is the error \<open>fetchPosts\<close> throws.\<close>

function fetchPostsLoop ::
  "net \<Rightarrow> string \<Rightarrow> sortBy \<Rightarrow> number \<Rightarrow> number \<Rightarrow> RedditPost list \<Rightarrow> string option \<Rightarrow> nat
   \<Rightarrow> nat \<Rightarrow> (exn + RedditPost list) \<times> effect list \<times> nat" where
  "fetchPostsLoop net subredditName sortMode skipCount totalNeeded allPosts after attempts n =
     (if of_nat (length allPosts) < totalNeeded \<and> attempts < maxAttempts then
        (case fetchRedditJSON net (listingUrl subredditName sortMode after) 2 n of
           (Inl e, tr, n') \<Rightarrow> (Inl e, tr, n')
         | (Inr (Listing l), tr, n') \<Rightarrow>
             (case listing_children l of
                None \<Rightarrow> (Inr allPosts, tr, n')
              | Some children \<Rightarrow>
                  if children = [] then (Inr allPosts, tr, n')
                  else
                    (case scanChildren skipCount totalNeeded children allPosts of
                       (allPosts', evs) \<Rightarrow>
                         if \<not> truthy (listing_after l) then (Inr allPosts', tr @ evs, n')
                         else
                           andThen (tr @ evs @ [Sleep DELAY_BETWEEN_REQUESTS])
                             (fetchPostsLoop net subredditName sortMode skipCount totalNeeded allPosts'
                                (listing_after l) (Suc attempts) n')))
         | (Inr JsonNull, tr, n') \<Rightarrow> (Inl (cannotRead ''null'' ''data''), tr, n')
         | (Inr _, tr, n') \<Rightarrow> (Inl (cannotRead ''undefined'' ''children''), tr, n'))
      else (Inr allPosts, [], n))"
  by pat_completeness auto
termination
  by (relation "measure (\<lambda>(net, subredditName, sortMode, skipCount, totalNeeded, allPosts, after,
                           attempts, n). maxAttempts - attempts)")
     auto

declare fetchPostsLoop.simps [simp del]

definition fetchPosts ::
  "net \<Rightarrow> string \<Rightarrow> sortBy \<Rightarrow> number \<Rightarrow> number \<Rightarrow> nat
   \<Rightarrow> (exn + RedditPost list) \<times> effect list \<times> nat" where
  "fetchPosts net subredditName sortMode targetCount skipCount n =
     (case fetchPostsLoop net subredditName sortMode skipCount (skipCount + targetCount) [] None 0 n of
        (Inl e, tr, n') \<Rightarrow> (Inl e, tr, n')
      | (Inr allPosts, tr, n') \<Rightarrow>
          (Inr (slice skipCount (skipCount + targetCount) allPosts), tr, n'))"

section \<open>fetchComments\<close>

definition commentsUrl :: "string \<Rightarrow> string" where
  "commentsUrl link = ''https://www.reddit.com'' @ link @ ''.json?limit=500&sort=top''"

text \<open>The \<open>for\<close> loop over the children of the comment listing.\<close>

fun commentsLoop ::
  "number \<Rightarrow> commentData list \<Rightarrow> RedditComment list \<Rightarrow> nat \<Rightarrow> RedditComment list" where
  "commentsLoop limit [] comments nextRank = comments"
| "commentsLoop limit (child # rest) comments nextRank =
     (if of_nat (length comments) \<ge> limit then comments
      else
        (case cd_body child of
           None \<Rightarrow> commentsLoop limit rest comments nextRank
         | Some b \<Rightarrow>
             if b = [] \<or> b = ''[deleted]'' \<or> b = ''[removed]'' then
               commentsLoop limit rest comments nextRank
             else
               commentsLoop limit rest
                 (comments @ [\<lparr> rank = nextRank, comment_id = cd_id child, body = b,
                                comment_score = cd_score child \<rparr>])
                 (nextRank + 1)))"

definition fetchComments ::
  "net \<Rightarrow> string \<Rightarrow> number \<Rightarrow> nat \<Rightarrow> (exn + RedditComment list) \<times> effect list \<times> nat"
  where
  "fetchComments net link limit n =
     (case fetchRedditJSON net (commentsUrl link) 2 n of
        (Inl e, tr, n') \<Rightarrow> (Inl e, tr, n')
      | (Inr (Thread data), tr, n') \<Rightarrow>
          if length data < 2 then (Inr [], tr, n')
          else
            (case data ! 1 of
               CommentListing children \<Rightarrow> (Inr (commentsLoop limit children [] 1), tr, n')
             | NoChildren \<Rightarrow> (Inl notIterable, tr, n')
             | NoData \<Rightarrow> (Inl (cannotRead ''undefined'' ''children''), tr, n')
             | NullSegment \<Rightarrow> (Inl (cannotRead ''null'' ''data''), tr, n'))
      | (Inr _, tr, n') \<Rightarrow> (Inr [], tr, n'))"

section \<open>The handler of /api/scrape\<close>

text \<open>
  The flat record is an object whose members are assigned one at a time: an association list
  in insertion order, where assigning to a key that exists overwrites in place.
\<close>

definition commentKey :: "nat \<Rightarrow> string" where
  "commentKey N = ''Kommentar '' @ showNat N"

definition flatItem :: "RedditPost \<Rightarrow> RedditComment list \<Rightarrow> (string \<times> string) list" where
  "flatItem post comments =
     foldl (\<lambda>item (idx, comment). AList.update (commentKey (idx + 1)) (body comment) item)
       [(''Post'',
         if selftext post \<noteq> [] then title post @ [CHR 0x0A, CHR 0x0A] @ selftext post
         else title post)]
       (enumerate 0 comments)"

definition exportRecord :: "exportMode \<Rightarrow> RedditPost \<Rightarrow> RedditComment list \<Rightarrow> exportItem" where
  "exportRecord mode post comments =
     (if mode = Clean then CleanExportItem post comments
      else FlatExportItem (flatItem post comments))"

text \<open>The loop over the posts, from index \<open>i\<close>, with \<open>results\<close> and \<open>totalComments\<close>.\<close>

function postLoop ::
  "net \<Rightarrow> scrapeConfig \<Rightarrow> RedditPost list \<Rightarrow> nat \<Rightarrow> exportItem list \<Rightarrow> nat \<Rightarrow> nat
   \<Rightarrow> (exportItem list \<times> nat) \<times> effect list \<times> nat" where
  "postLoop net config posts i results totalComments n =
     (if i < length posts then
        (let post = posts ! i;
             progress = Emit (Progress (''Processing post '' @ showNat (i + 1) @ ''/''
                                        @ showNat (length posts) @ ''...'')
                                (of_nat (length posts)) (Some i) (Some totalComments))
         in case fetchComments net (permalink post) (commentsPerPost config) n of
              (Inr comments, tr, n') \<Rightarrow>
                andThen (progress # tr @ [Sleep DELAY_BETWEEN_REQUESTS])
                  (postLoop net config posts (Suc i)
                     (results @ [exportRecord (exportMode config) post comments])
                     (totalComments + length comments) n')
            | (Inl error, tr, n') \<Rightarrow>
                andThen (progress # tr
                         @ [ConsoleError (''Error fetching comments for post '' @ post_id post
                                          @ '':'') error])
                  (postLoop net config posts (Suc i) results totalComments n'))
      else ((results, totalComments), [], n))"
  by pat_completeness auto
termination
  by (relation "measure (\<lambda>(net, config, posts, i, results, totalComments, n). length posts - i)")
     auto

declare postLoop.simps [simp del]

fun errorMessage :: "exn \<Rightarrow> string" where
  "errorMessage (Error m) = m"
| "errorMessage NonError = ''An unknown error occurred''"

definition completeMessage :: "scrapeConfig \<Rightarrow> nat \<Rightarrow> nat \<Rightarrow> string" where
  "completeMessage config found totalComments =
     (if of_nat found < postCount config then
        ''Complete! Found '' @ showNat found @ '' text posts (target was ''
        @ showNumber (postCount config) @ '').''
      else
        ''Complete! Collected '' @ showNat found @ '' posts with '' @ showNat totalComments
        @ '' comments.'')"

text \<open>The stream of a validated request: the outer \<open>try\<close> with its \<open>catch\<close>.\<close>

definition scrapeStream :: "net \<Rightarrow> scrapeConfig \<Rightarrow> nat \<Rightarrow> effect list" where
  "scrapeStream net config n =
     Emit (Progress (if skipPosts config > 0
                     then ''Fetching posts (will skip first '' @ showNumber (skipPosts config)
                          @ '')...''
                     else ''Fetching posts...'') 0 (Some 0) (Some 0))
     # (case fetchPosts net (subreddit config) (sortBy config) (postCount config)
               (skipPosts config) n of
          (Inl error, tr, n') \<Rightarrow> tr @ [Emit (ErrorEvent (errorMessage error)), End]
        | (Inr posts, tr, n') \<Rightarrow>
            if length posts = 0 then
              tr @ [Emit (ErrorEvent ''No text posts found in this subreddit.''), End]
            else
              (case postLoop net config posts 0 [] 0 n' of
                 ((results, totalComments), tr', n'') \<Rightarrow>
                   tr @ tr'
                   @ [Emit (Progress ''Finalizing...'' (of_nat (length posts))
                              (Some (length posts)) (Some totalComments)),
                      Emit (Complete (completeMessage config (length posts) totalComments)
                              results),
                      End]))"

text \<open>
  The handler, given what \<open>scrapeConfigSchema.safeParse\<close> answered: the message of a
  rejected body, or the validated configuration.
\<close>

definition apiScrape :: "net \<Rightarrow> string + scrapeConfig \<Rightarrow> effect list" where
  "apiScrape net parseResult =
     (case parseResult of
        Inl message \<Rightarrow> [Respond400 message]
      | Inr config \<Rightarrow> FlushHeaders # scrapeStream net config 0)"

section \<open>Observing a run\<close>

text \<open>The events a trace writes to the stream, in order.\<close>

fun events :: "effect list \<Rightarrow> event list" where
  "events [] = []"
| "events (Emit e # tr) = e # events tr"
| "events (x # tr) = events tr"

text \<open>
  The children of the listing a request was answered with, when the status was a success and
  the body a listing; and those of a whole trace.
\<close>

fun pageOf :: "effect \<Rightarrow> postData list" where
  "pageOf (Fetch u (Inr r)) =
     (if ok r then
        (case json r of
           Inr (Listing l) \<Rightarrow> (case listing_children l of Some children \<Rightarrow> children | None \<Rightarrow> [])
         | _ \<Rightarrow> [])
      else [])"
| "pageOf x = []"

definition listedPosts :: "effect list \<Rightarrow> postData list" where
  "listedPosts tr = concat (map pageOf tr)"

text \<open>The terminal events, and the number of posts found that a progress event reports.\<close>

fun isTerminal :: "event \<Rightarrow> bool" where
  "isTerminal (Progress m f p c) = False"
| "isTerminal (Complete m d) = True"
| "isTerminal (ErrorEvent m) = True"

fun found :: "event \<Rightarrow> number list" where
  "found (Progress m f p c) = [f]"
| "found e = []"

text \<open>The requests and the delays of a trace, in order.\<close>

fun requestsAndDelays :: "effect list \<Rightarrow> effect list" where
  "requestsAndDelays [] = []"
| "requestsAndDelays (Fetch u r # tr) = Fetch u r # requestsAndDelays tr"
| "requestsAndDelays (Sleep ms # tr) = Sleep ms # requestsAndDelays tr"
| "requestsAndDelays (x # tr) = requestsAndDelays tr"

section \<open>What the specification says of the posts\<close>

text \<open>
  The least array length that is not less than a number: the loops that compare a length
  with a count stop there.
\<close>

definition needed :: "number \<Rightarrow> nat" where
  "needed q = nat \<lceil>q\<rceil>"

text \<open>The qualifying items of a listing are its children that are no media posts.\<close>

definition qualifying :: "postData list \<Rightarrow> postData list" where
  "qualifying children = filter (\<lambda>d. \<not> isMediaPost d) children"

text \<open>
  The media rule as the specification words it, with the specification's spelling of the
  post hints.
\<close>

definition isMedia :: "postData \<Rightarrow> bool" where
  "isMedia d \<longleftrightarrow>
     pd_post_hint d \<in> {Some ''image'', Some ''hosted-video'', Some ''rich-video'', Some ''gallery''}
     \<or> pd_is_gallery d = Some True
     \<or> list_ex (\<lambda>ext. endsWith (toLowerCase (case pd_url d of None \<Rightarrow> [] | Some u \<Rightarrow> u)) ext)
          mediaExtensions
     \<or> pd_preview d = Present
     \<or> pd_media d = Present"

text \<open>
  A listing served page by page: the \<open>n\<close>-th request is answered with the \<open>n\<close>-th
  page and with a cursor when a page follows; requests beyond the last page get an empty page.
\<close>

definition page :: "postData list list \<Rightarrow> nat \<Rightarrow> listing" where
  "page pages n =
     (if n < length pages then
        \<lparr> listing_children = Some (pages ! n),
          listing_after = (if Suc n < length pages then Some (''t3_'' @ showNat (Suc n)) else None) \<rparr>
      else \<lparr> listing_children = Some [], listing_after = None \<rparr>)"

definition listingNet :: "postData list list \<Rightarrow> net" where
  "listingNet pages = (\<lambda>n u. okResponse (Listing (page pages n)))"

section \<open>What the specification says of the comments\<close>

text \<open>
  A child of the comment listing is retained unless its body is missing, empty,
  \<open>[deleted]\<close> or \<open>[removed]\<close>.
\<close>

definition retained :: "commentData \<Rightarrow> bool" where
  "retained d =
     (case cd_body d of
        None \<Rightarrow> False
      | Some b \<Rightarrow> b \<noteq> [] \<and> b \<noteq> ''[deleted]'' \<and> b \<noteq> ''[removed]'')"

definition bodyText :: "commentData \<Rightarrow> string" where
  "bodyText d = (case cd_body d of None \<Rightarrow> [] | Some b \<Rightarrow> b)"

text \<open>
  The first \<open>limit\<close> retained children, in source order, ranked \<open>1, 2, ...\<close>.
\<close>

definition rankedComments :: "nat \<Rightarrow> commentData list \<Rightarrow> RedditComment list" where
  "rankedComments limit children =
     map (\<lambda>(r, d). \<lparr> rank = r, comment_id = cd_id d, body = bodyText d,
                      comment_score = cd_score d \<rparr>)
       (enumerate 1 (take limit (filter retained children)))"

text \<open>
  A response lacks a comment-listing segment when it is not an array of at least two
  segments.
\<close>

fun lacksCommentListing :: "body \<Rightarrow> bool" where
  "lacksCommentListing (Thread data) = (length data < 2)"
| "lacksCommentListing (Listing l) = True"
| "lacksCommentListing JsonNull = True"
| "lacksCommentListing Unshaped = True"

text \<open>The children of the comment listing of a response, none where it has no listing.\<close>

fun commentChildren :: "body \<Rightarrow> commentData list" where
  "commentChildren (Thread (first # CommentListing children # others)) = children"
| "commentChildren b = []"

text \<open>
  What the comment fetch answers for each post of a list in turn, the first request being the
  \<open>n\<close>-th of the run; and the posts whose comment fetch succeeded, with their comments.
\<close>

fun commentOutcomes ::
  "net \<Rightarrow> number \<Rightarrow> RedditPost list \<Rightarrow> nat \<Rightarrow> (exn + RedditComment list) list" where
  "commentOutcomes net limit [] n = []"
| "commentOutcomes net limit (p # ps) n =
     (case fetchComments net (permalink p) limit n of
        (r, tr, n') \<Rightarrow> r # commentOutcomes net limit ps n')"

fun successes :: "('a \<times> (exn + 'b)) list \<Rightarrow> ('a \<times> 'b) list" where
  "successes [] = []"
| "successes ((p, Inr c) # xs) = (p, c) # successes xs"
| "successes ((p, Inl e) # xs) = successes xs"

definition commented ::
  "net \<Rightarrow> number \<Rightarrow> RedditPost list \<Rightarrow> nat \<Rightarrow> (RedditPost \<times> RedditComment list) list"
  where
  "commented net limit posts n = successes (zip posts (commentOutcomes net limit posts n))"

section \<open>Concrete inputs\<close>

definition aPost :: RedditPost where
  "aPost = \<lparr> post_id = ''p1'', title = ''A title'', selftext = [],
             permalink = ''/r/x/comments/p1/a'',
             url = Some ''https://www.reddit.com/r/x/comments/p1/a'',
             created_utc = 1700000000, score = 5 \<rparr>"

definition aComment :: RedditComment where
  "aComment = \<lparr> rank = 1, comment_id = ''c1'', body = ''A comment'', comment_score = 3 \<rparr>"

definition someComments :: "commentData list" where
  "someComments =
     [\<lparr> cd_id = ''c1'', cd_body = Some ''first'', cd_score = 9 \<rparr>,
      \<lparr> cd_id = ''c2'', cd_body = Some ''[deleted]'', cd_score = 8 \<rparr>,
      \<lparr> cd_id = ''c3'', cd_body = None, cd_score = 7 \<rparr>,
      \<lparr> cd_id = ''c4'', cd_body = Some ''second'', cd_score = 6 \<rparr>,
      \<lparr> cd_id = ''c5'', cd_body = Some ''third'', cd_score = 5 \<rparr>]"

text \<open>A network that answers every request with a thread of five comments.\<close>

definition threadNet :: net where
  "threadNet = (\<lambda>n u. okResponse (Thread [CommentListing [], CommentListing someComments]))"

text \<open>A network that answers every request with a thread of one segment.\<close>

definition shortNet :: net where
  "shortNet = (\<lambda>n u. okResponse (Thread [CommentListing []]))"

text \<open>A network that answers every request with status 403.\<close>

definition blockedNet :: net where
  "blockedNet = (\<lambda>n u. statusResponse 403)"

definition imagePost :: postData where
  "imagePost =
     \<lparr> pd_id = ''i1'', pd_title = ''A picture'', pd_selftext = None,
       pd_permalink = ''/r/x/comments/i1/a_picture/'',
       pd_url = Some ''https://i.redd.it/abc.JPG'', pd_created_utc = 1700000100, pd_score = 99,
       pd_post_hint = Some ''image'', pd_is_gallery = None, pd_preview = Present,
       pd_media = Null \<rparr>"

definition postA :: postData where
  "postA =
     \<lparr> pd_id = ''a'', pd_title = ''First'', pd_selftext = Some ''Body of the first'',
       pd_permalink = ''/r/x/comments/a/first/'',
       pd_url = Some ''https://www.reddit.com/r/x/comments/a/first/'',
       pd_created_utc = 1700000200, pd_score = 12, pd_post_hint = Some ''self'',
       pd_is_gallery = None, pd_preview = Undefined, pd_media = Null \<rparr>"

definition postB :: postData where
  "postB =
     \<lparr> pd_id = ''b'', pd_title = ''Second'', pd_selftext = None,
       pd_permalink = ''/r/x/comments/b/second/'',
       pd_url = Some ''https://www.reddit.com/r/x/comments/b/second/'',
       pd_created_utc = 1700000300, pd_score = 7, pd_post_hint = None,
       pd_is_gallery = Some False, pd_preview = Undefined, pd_media = Undefined \<rparr>"

text \<open>
  A subreddit whose listing holds an image post and two text posts; the comments of the
  first text post are blocked on both hosts, those of the second are served.
\<close>

definition scenarioNet :: net where
  "scenarioNet =
     (\<lambda>n u.
        if u = ''https://www.reddit.com/r/x/new.json?limit=100'' then
          okResponse (Listing \<lparr> listing_children = Some [imagePost, postB, postA],
                                listing_after = None \<rparr>)
        else if u = ''https://www.reddit.com/r/x/comments/a/first/.json?limit=500&sort=top'' then
          okResponse (Thread [CommentListing [], CommentListing someComments])
        else statusResponse 403)"

definition scenarioConfig :: scrapeConfig where
  "scenarioConfig =
     \<lparr> subreddit = ''x'', postCount = 2, skipPosts = 0, commentsPerPost = 2, sortBy = New,
       exportMode = Clean \<rparr>"

definition skipConfig :: scrapeConfig where
  "skipConfig =
     \<lparr> subreddit = ''x'', postCount = 1, skipPosts = 1, commentsPerPost = 2, sortBy = New,
       exportMode = Flat_labels \<rparr>"

text \<open>
  The same listing where every permalink answers with a thread; two configurations that the
  schema accepts and whose counts are not whole; and a post whose hint is spelled with a
  hyphen.
\<close>

definition openNet :: net where
  "openNet =
     (\<lambda>n u.
        if u = ''https://www.reddit.com/r/x/new.json?limit=100'' then
          okResponse (Listing \<lparr> listing_children = Some [imagePost, postB, postA],
                                listing_after = None \<rparr>)
        else okResponse (Thread [CommentListing [], CommentListing someComments]))"

definition halfConfig :: scrapeConfig where
  "halfConfig =
     \<lparr> subreddit = ''x'', postCount = 3 / 2, skipPosts = 1 / 2, commentsPerPost = 2,
       sortBy = New, exportMode = Clean \<rparr>"

definition fractionConfig :: scrapeConfig where
  "fractionConfig =
     \<lparr> subreddit = ''x'', postCount = 3 / 2, skipPosts = 0, commentsPerPost = 2,
       sortBy = New, exportMode = Clean \<rparr>"

definition videoPost :: postData where
  "videoPost =
     \<lparr> pd_id = ''v'', pd_title = ''A clip'', pd_selftext = None,
       pd_permalink = ''/r/x/comments/v/a_clip/'',
       pd_url = Some ''https://v.redd.it/xyz'', pd_created_utc = 1700000400, pd_score = 3,
       pd_post_hint = Some ''hosted-video'', pd_is_gallery = None, pd_preview = Undefined,
       pd_media = Undefined \<rparr>"

text \<open>What the handler does in that subreddit with \<open>scenarioConfig\<close>.\<close>

definition scenarioTrace :: "effect list" where
  "scenarioTrace =
     [FlushHeaders,
      Emit (Progress ''Fetching posts...'' 0 (Some 0) (Some 0)),
      Fetch ''https://www.reddit.com/r/x/new.json?limit=100''
        (okResponse (Listing \<lparr> listing_children = Some [imagePost, postB, postA],
                               listing_after = None \<rparr>)),
      Emit (Progress ''Found 1 text posts (skipped 0)...'' 1 None None),
      Emit (Progress ''Found 2 text posts (skipped 0)...'' 2 None None),
      Emit (Progress ''Processing post 1/2...'' 2 (Some 0) (Some 0)),
      Fetch ''https://www.reddit.com/r/x/comments/b/second/.json?limit=500&sort=top''
        (statusResponse 403),
      Fetch ''https://old.reddit.com/r/x/comments/b/second/.json?limit=500&sort=top''
        (statusResponse 403),
      ConsoleError ''Error fetching comments for post b:'' (Error blockedMessage),
      Emit (Progress ''Processing post 2/2...'' 2 (Some 1) (Some 0)),
      Fetch ''https://www.reddit.com/r/x/comments/a/first/.json?limit=500&sort=top''
        (okResponse (Thread [CommentListing [], CommentListing someComments])),
      Sleep 2000,
      Emit (Progress ''Finalizing...'' 2 (Some 2) (Some 2)),
      Emit (Complete ''Complete! Collected 2 posts with 2 comments.''
              [CleanExportItem (extractPost postA)
                 [\<lparr> rank = 1, comment_id = ''c1'', body = ''first'', comment_score = 9 \<rparr>,
                  \<lparr> rank = 2, comment_id = ''c4'', body = ''second'', comment_score = 6 \<rparr>]]),
      End]"

section \<open>Decimal numerals\<close>

lemma digit_values:
  "digit 0 = CHR ''0''" "digit 1 = CHR ''1''" "digit (Suc 0) = CHR ''1''"
  "digit 2 = CHR ''2''" "digit 3 = CHR ''3''" "digit 4 = CHR ''4''" "digit 5 = CHR ''5''"
  "digit 6 = CHR ''6''" "digit 7 = CHR ''7''" "digit 8 = CHR ''8''" "digit 9 = CHR ''9''"
  by code_simp+

lemma digitValue_digit: "d < 10 \<Longrightarrow> digitValue (digit d) = d"
  by (simp add: digitValue_def digit_def)

lemma readNat_snoc: "readNat (s @ [c]) = 10 * readNat s + digitValue c"
  by (simp add: readNat_def)

lemma readNat_showNat: "readNat (showNat n) = n"
proof (induction n rule: showNat.induct)
  case (1 n)
  show ?case
  proof (cases "n < 10")
    case True
    then show ?thesis by (simp add: showNat.simps[of n] readNat_def digitValue_digit)
  next
    case False
    with 1 have "readNat (showNat (n div 10)) = n div 10" by simp
    with False show ?thesis
      by (simp add: showNat.simps[of n] readNat_snoc digitValue_digit)
  qed
qed

lemma showNat_inj: "showNat m = showNat n \<Longrightarrow> m = n"
  by (metis readNat_showNat)


section \<open>The flat export record\<close>

lemma commentKey_inj: "commentKey m = commentKey n \<Longrightarrow> m = n"
  by (simp add: commentKey_def showNat_inj)

lemma commentKey_not_Post: "commentKey n \<noteq> ''Post''"
  by (simp add: commentKey_def)

lemma update_fresh: "k \<notin> fst ` set al \<Longrightarrow> AList.update k v al = al @ [(k, v)]"
  by (induction al) auto

text \<open>Each assignment of the \<open>forEach\<close> adds a new member at the end of the object.\<close>

lemma flat_fold:
  "\<forall>i\<ge>k. commentKey (Suc i) \<notin> fst ` set item \<Longrightarrow>
   foldl (\<lambda>item (idx, comment). AList.update (commentKey (Suc idx)) (body comment) item)
     item (enumerate k comments)
   = item @ map (\<lambda>(idx, comment). (commentKey (Suc idx), body comment)) (enumerate k comments)"
proof (induction comments arbitrary: k item)
  case Nil
  then show ?case by simp
next
  case (Cons c cs)
  let ?item = "item @ [(commentKey (Suc k), body c)]"
  have fresh: "commentKey (Suc k) \<notin> fst ` set item"
    using Cons.prems by blast
  have "\<forall>i\<ge>Suc k. commentKey (Suc i) \<notin> fst ` set ?item"
    using Cons.prems by (auto dest: commentKey_inj)
  from Cons.IH [OF this] show ?case
    by (simp add: update_fresh [OF fresh])
qed

lemma numbered_keys:
  "map (\<lambda>(idx, comment). (commentKey (Suc idx), body comment)) (enumerate 0 comments)
   = zip (map commentKey [1..<Suc (length comments)]) (map body comments)"
proof -
  have "[1..<Suc (length comments)] = map Suc [0..<length comments]"
    by (simp add: map_Suc_upt del: upt_Suc)
  then have "zip (map commentKey [1..<Suc (length comments)]) (map body comments)
        = zip (map (\<lambda>i. commentKey (i + 1)) [0..<length comments]) (map body comments)"
    by (simp add: comp_def)
  also have "\<dots> = map (\<lambda>(idx, comment). (commentKey (Suc idx), body comment))
                     (zip [0..<length comments] comments)"
    by (simp add: zip_map_map)
  finally show ?thesis
    by (simp add: enumerate_eq_zip)
qed

lemma flatItem_members:
  "flatItem post comments =
     (''Post'', if selftext post \<noteq> [] then title post @ [CHR 0x0A, CHR 0x0A] @ selftext post
                else title post)
     # zip (map commentKey [1..<Suc (length comments)]) (map body comments)"
proof -
  have fresh: "\<forall>i\<ge>0. commentKey (Suc i) \<notin> fst ` set [(''Post'', t)]" for t :: string
    using commentKey_not_Post by simp
  have "flatItem post comments =
      (''Post'', if selftext post \<noteq> [] then title post @ [CHR 0x0A, CHR 0x0A] @ selftext post
                 else title post)
      # map (\<lambda>(idx, comment). (commentKey (Suc idx), body comment)) (enumerate 0 comments)"
    unfolding flatItem_def Suc_eq_plus1 [symmetric] by (subst flat_fold [OF fresh]) simp
  then show ?thesis
    by (simp only: numbered_keys)
qed

text \<open>
  C3, as the code has it. In flat mode the export record has the member \<open>Post\<close> first, whose
  value is the title when the body of the post is empty and the title, two line feeds and the
  body otherwise; then one member per comment, in the order of the comment list, under the
  keys \<open>Kommentar 1\<close>, ..., \<open>Kommentar k\<close> for \<open>k\<close> comments. The keys are German:
  \<open>Kommentar N\<close>, as \<open>FlatExportItem\<close> in shared/schema.ts declares them, not \<open>Comment N\<close>.
\<close>

theorem flat_record_members:
  "exportRecord Flat_labels post comments =
     FlatExportItem
       ((''Post'',
         if selftext post = [] then title post
         else title post @ [CHR 0x0A, CHR 0x0A] @ selftext post)
        # zip (map (\<lambda>N. ''Kommentar '' @ showNat N) [1..<Suc (length comments)])
              (map body comments))"
proof -
  have "commentKey = (\<lambda>N. ''Kommentar '' @ showNat N)"
    by (rule ext) (simp add: commentKey_def)
  then show ?thesis
    by (simp add: exportRecord_def flatItem_members del: upt_Suc)
qed

text \<open>
  C3, as the specification words it, fails: a post with one comment is exported with the key
  \<open>Kommentar 1\<close>, and not with the key \<open>Comment 1\<close>.
\<close>

theorem flat_record_key_counterexample:
  "exportRecord Flat_labels aPost [aComment]
     \<noteq> FlatExportItem [(''Post'', ''A title''), (''Comment 1'', ''A comment'')]
   \<and> exportRecord Flat_labels aPost [aComment]
     = FlatExportItem [(''Post'', ''A title''), (''Kommentar 1'', ''A comment'')]"
  by (simp add: exportRecord_def flatItem_def commentKey_def aPost_def aComment_def
        showNat.simps digit_values)


section \<open>Counts and array lengths\<close>

lemma less_needed: "(of_nat n < q) = (n < needed q)"
proof -
  have "(of_nat n < q) = (of_int (int n) < q)" by simp
  also have "\<dots> = (int n < \<lceil>q\<rceil>)" by (simp only: less_ceiling_iff)
  also have "\<dots> = (n < needed q)" by (simp add: needed_def zless_nat_eq_int_zless)
  finally show ?thesis .
qed

lemma needed_le: "(q \<le> of_nat n) = (needed q \<le> n)"
  using less_needed [of n q] by (simp add: not_less [symmetric])

lemma needed_of_nat: "needed (of_nat k) = k"
  by (simp add: needed_def)

lemma needed_add: "needed (of_nat s + of_nat t) = s + t"
  using needed_of_nat [of "s + t"] by simp

lemma whole_of_nat: "whole (of_nat k)"
  by (simp add: whole_def)

lemma whole_nat:
  assumes "whole q" "0 \<le> q"
  obtains k where "q = of_nat k"
proof -
  from assms(2) have "0 \<le> \<lfloor>q\<rfloor>" by simp
  then have "of_int \<lfloor>q\<rfloor> = (of_nat (nat \<lfloor>q\<rfloor>) :: rat)"
    by (simp add: of_nat_nat)
  with assms(1) have "q = of_nat (nat \<lfloor>q\<rfloor>)" by (simp add: whole_def)
  then show ?thesis by (rule that)
qed

text \<open>\<open>slice\<close> between whole bounds, and what it keeps between others.\<close>

lemma slice_whole: "slice (of_nat s) (of_nat s + of_nat t) xs = take t (drop s xs)"
proof -
  have i: "toInteger (of_nat s) = int s" "toInteger (of_nat s + of_nat t) = int (s + t)"
    by (simp_all add: toInteger_def)
  show ?thesis
  proof (cases "s \<le> length xs")
    case True
    then have "nat (min (int s + int t) (int (length xs)) - int s) = min t (length xs - s)"
      by (auto simp: min_def)
    moreover have "take (min t (length xs - s)) (drop s xs) = take t (drop s xs)"
      by (cases "t \<le> length xs - s") (simp_all add: min_def)
    ultimately show ?thesis
      using True by (simp add: slice_def i sliceIndex_def Let_def min_absorb1)
  next
    case False
    then show ?thesis
      by (simp add: slice_def i sliceIndex_def Let_def)
  qed
qed

lemma set_slice: "set (slice a b xs) \<subseteq> set xs"
proof -
  have "set (slice a b xs) \<subseteq> set (drop (nat (sliceIndex (int (length xs)) (toInteger a))) xs)"
    unfolding slice_def Let_def by (rule set_take_subset)
  also have "\<dots> \<subseteq> set xs" by (rule set_drop_subset)
  finally show ?thesis .
qed

lemma slice_length:
  assumes "0 \<le> s" "whole s" "0 \<le> t" "whole t"
  shows "of_nat (length (slice s (s + t) xs)) \<le> t"
proof -
  from assms(2,1) obtain i where i: "s = of_nat i" by (rule whole_nat)
  from assms(4,3) obtain k where k: "t = of_nat k" by (rule whole_nat)
  have "(of_nat (length (take k (drop i xs))) :: number) \<le> of_nat k"
    by (simp only: of_nat_le_iff) simp
  then show ?thesis
    unfolding i k slice_whole .
qed


section \<open>fetchComments\<close>

lemma commentsLoop_ranked:
  "commentsLoop limit children comments r =
     comments @ map (\<lambda>(r, d). \<lparr> rank = r, comment_id = cd_id d, body = bodyText d,
                      comment_score = cd_score d \<rparr>)
       (enumerate r (take (needed limit - length comments) (filter retained children)))"
proof (induction children arbitrary: comments r)
  case Nil
  then show ?case by simp
next
  case (Cons child rest)
  show ?case
  proof (cases "needed limit \<le> length comments")
    case True
    then show ?thesis by (simp add: needed_le)
  next
    case False
    then obtain k where k: "needed limit - length comments = Suc k"
      by (cases "needed limit - length comments") auto
    then have k': "needed limit - Suc (length comments) = k"
      by arith
    show ?thesis
    proof (cases "retained child")
      case True
      then obtain b where "cd_body child = Some b" "b \<noteq> []" "b \<noteq> ''[deleted]''" "b \<noteq> ''[removed]''"
        by (auto simp: retained_def split: option.splits)
      with False True k k' show ?thesis
        by (simp add: needed_le Cons.IH bodyText_def)
    next
      case nr: False
      with False show ?thesis
        by (auto simp: needed_le Cons.IH retained_def split: option.splits)
    qed
  qed
qed

lemma commentsLoop_rankedComments:
  "commentsLoop limit children [] (Suc 0) = rankedComments (needed limit) children"
  by (simp add: commentsLoop_ranked rankedComments_def)

lemma rankedComments_length: "length (rankedComments limit children) \<le> limit"
  by (simp add: rankedComments_def)

lemma rankedComments_rank:
  "map rank (rankedComments limit children) = [1..<Suc (length (rankedComments limit children))]"
  by (simp add: rankedComments_def comp_def case_prod_unfold del: upt_Suc)

lemma rankedComments_body:
  "c \<in> set (rankedComments limit children) \<Longrightarrow>
   body c \<noteq> [] \<and> body c \<noteq> ''[deleted]'' \<and> body c \<noteq> ''[removed]''"
  by (auto simp: rankedComments_def enumerate_eq_zip retained_def bodyText_def
      dest!: set_zip_rightD in_set_takeD split: option.splits)


lemma commentChildren_nth:
  "2 \<le> length data \<Longrightarrow> data ! 1 = CommentListing children \<Longrightarrow>
   commentChildren (Thread data) = children"
  by (cases data; cases "tl data") auto

text \<open>
  C4. When \<open>fetchComments\<close> returns, none of the comments it returns has an empty body
  or the body \<open>[deleted]\<close> or \<open>[removed]\<close>; their ranks are \<open>1, 2, ..., k\<close> for
  \<open>k\<close> returned comments; they are the first retained children of the fetched comment
  listing, in source order, as many as the least whole number that is not below \<open>limit\<close>;
  and they are at most \<open>limit\<close> when \<open>limit\<close> is a whole number and not negative.
\<close>

theorem fetchComments_ranked:
  assumes "fetchComments net link limit n = (Inr comments, tr, n')"
  shows "(whole limit \<and> 0 \<le> limit \<longrightarrow> of_nat (length comments) \<le> limit)
       \<and> length comments \<le> needed limit
       \<and> (\<forall>c\<in>set comments. body c \<noteq> [] \<and> body c \<noteq> ''[deleted]'' \<and> body c \<noteq> ''[removed]'')
       \<and> map rank comments = [1..<Suc (length comments)]
       \<and> (\<exists>data. fst (fetchRedditJSON net (commentsUrl link) 2 n) = Inr data
                 \<and> comments = rankedComments (needed limit) (commentChildren data))"
proof -
  obtain r tr0 n0 where f: "fetchRedditJSON net (commentsUrl link) 2 n = (r, tr0, n0)"
    by (cases "fetchRedditJSON net (commentsUrl link) 2 n") auto
  with assms obtain data where d: "r = Inr data"
    by (cases r) (auto simp: fetchComments_def)
  have c: "comments = rankedComments (needed limit) (commentChildren data)"
  proof (cases data)
    case (Thread segs)
    show ?thesis
    proof (cases "length segs < 2")
      case True
      with assms f d Thread have "comments = []"
        by (simp add: fetchComments_def)
      moreover from True have "commentChildren data = []"
        unfolding Thread by (cases segs; cases "tl segs") auto
      ultimately show ?thesis by (simp add: rankedComments_def)
    next
      case False
      with assms f d Thread obtain children where
        c: "segs ! 1 = CommentListing children" "comments = commentsLoop limit children [] 1"
        by (cases "segs ! 1") (auto simp: fetchComments_def)
      from False c(1) have "commentChildren data = children"
        unfolding Thread by (intro commentChildren_nth) auto
      with c(2) show ?thesis by (simp add: commentsLoop_rankedComments)
    qed
  next
    case (Listing l)
    with assms f d show ?thesis by (simp add: fetchComments_def rankedComments_def)
  next
    case JsonNull
    with assms f d show ?thesis by (simp add: fetchComments_def rankedComments_def)
  next
    case Unshaped
    with assms f d show ?thesis by (simp add: fetchComments_def rankedComments_def)
  qed
  have "of_nat (length comments) \<le> limit" if "whole limit" "0 \<le> limit"
  proof -
    from that obtain k where "limit = of_nat k" by (rule whole_nat)
    with c show ?thesis
      using rankedComments_length [of k "commentChildren data"] by (simp add: needed_of_nat)
  qed
  with c f d show ?thesis
    using rankedComments_length rankedComments_rank rankedComments_body by auto
qed

text \<open>A request answered with a 2xx status at the first attempt.\<close>

lemma fetch_first_ok:
  "net n u = Inr r \<Longrightarrow> ok r \<Longrightarrow>
   fetchRedditJSON net u retries n = (json r, [Fetch u (Inr r)], Suc n)"
  by (simp add: fetchRedditJSON_def attemptLoop.simps [of net u retries 0] tryBlock_def)

lemma threadNet_comments:
  "fetchComments threadNet ''/r/x/comments/p1/a'' 2 0 =
     (Inr [\<lparr> rank = 1, comment_id = ''c1'', body = ''first'', comment_score = 9 \<rparr>,
           \<lparr> rank = 2, comment_id = ''c4'', body = ''second'', comment_score = 6 \<rparr>],
      [Fetch ''https://www.reddit.com/r/x/comments/p1/a.json?limit=500&sort=top''
         (okResponse (Thread [CommentListing [], CommentListing someComments]))],
      1)"
proof -
  have "fetchRedditJSON threadNet (commentsUrl ''/r/x/comments/p1/a'') 2 0 =
          (Inr (Thread [CommentListing [], CommentListing someComments]),
           [Fetch (commentsUrl ''/r/x/comments/p1/a'')
              (okResponse (Thread [CommentListing [], CommentListing someComments]))], 1)"
    using fetch_first_ok [of threadNet 0 "commentsUrl ''/r/x/comments/p1/a''"
        "\<lparr> status = 200, json = Inr (Thread [CommentListing [], CommentListing someComments]) \<rparr>" 2]
    by (simp add: threadNet_def okResponse_def ok_def)
  then show ?thesis
    by (simp add: fetchComments_def someComments_def commentsUrl_def)
qed

theorem fetchComments_ranked_witness:
  "whole (2 :: number)
   \<and> fetchComments threadNet ''/r/x/comments/p1/a'' 2 0 =
     (Inr [\<lparr> rank = 1, comment_id = ''c1'', body = ''first'', comment_score = 9 \<rparr>,
           \<lparr> rank = 2, comment_id = ''c4'', body = ''second'', comment_score = 6 \<rparr>],
      [Fetch ''https://www.reddit.com/r/x/comments/p1/a.json?limit=500&sort=top''
         (okResponse (Thread [CommentListing [], CommentListing someComments]))],
      1)
   \<and> rankedComments 2 someComments =
          [\<lparr> rank = 1, comment_id = ''c1'', body = ''first'', comment_score = 9 \<rparr>,
           \<lparr> rank = 2, comment_id = ''c4'', body = ''second'', comment_score = 6 \<rparr>]"
  using fetchComments_ranked [OF threadNet_comments] threadNet_comments
  by (simp add: rankedComments_def someComments_def retained_def bodyText_def whole_def)

text \<open>
  C4, as the specification words it, fails for a limit of one and a half, which the schema
  admits for \<open>commentsPerPost\<close>: two comments are returned.
\<close>

theorem fetchComments_limit_counterexample:
  "fst (fetchComments threadNet ''/r/x/comments/p1/a'' (3 / 2) 0) =
     Inr [\<lparr> rank = 1, comment_id = ''c1'', body = ''first'', comment_score = 9 \<rparr>,
          \<lparr> rank = 2, comment_id = ''c4'', body = ''second'', comment_score = 6 \<rparr>]
   \<and> \<not> of_nat (length [\<lparr> rank = 1, comment_id = ''c1'', body = ''first'', comment_score = 9 \<rparr>,
                         \<lparr> rank = 2, comment_id = ''c4'', body = ''second'',
                           comment_score = 6 \<rparr>])
         \<le> (3 / 2 :: number)
   \<and> 1 \<le> (3 / 2 :: number) \<and> (3 / 2 :: number) \<le> 200"
  by code_simp

text \<open>
  C8. When the fetch succeeds with a response that is not an array of at least two segments,
  \<open>fetchComments\<close> returns no comments, with the effects of the fetch and nothing else;
  for such responses it fails only when the fetch fails, and then with the error of the fetch.
\<close>

theorem fetchComments_without_listing:
  assumes "fetchRedditJSON net (commentsUrl link) 2 n = (r, tr, n')"
    and "\<forall>data. r = Inr data \<longrightarrow> lacksCommentListing data"
  shows "fetchComments net link limit n =
           (case r of Inl e \<Rightarrow> Inl e | Inr data \<Rightarrow> Inr [], tr, n')"
proof (cases r)
  case (Inl e)
  with assms show ?thesis by (simp add: fetchComments_def)
next
  case (Inr data)
  with assms have "lacksCommentListing data" by simp
  with Inr assms(1) show ?thesis
    by (cases data) (simp_all add: fetchComments_def)
qed

lemma shortNet_fetch:
  "fetchRedditJSON shortNet (commentsUrl ''/r/x/comments/p1/a'') 2 0 =
     (Inr (Thread [CommentListing []]),
      [Fetch (commentsUrl ''/r/x/comments/p1/a'') (okResponse (Thread [CommentListing []]))], 1)"
  using fetch_first_ok [of shortNet 0 "commentsUrl ''/r/x/comments/p1/a''"
      "\<lparr> status = 200, json = Inr (Thread [CommentListing []]) \<rparr>" 2]
  by (simp add: shortNet_def okResponse_def ok_def)

theorem fetchComments_without_listing_witness:
  "fetchComments shortNet ''/r/x/comments/p1/a'' 5 0 =
     (Inr [],
      [Fetch (commentsUrl ''/r/x/comments/p1/a'') (okResponse (Thread [CommentListing []]))], 1)"
  using fetchComments_without_listing [OF shortNet_fetch, of 5] by simp


section \<open>fetchRedditJSON\<close>

lemma oldUrl_www: "oldUrl (''https://www.reddit.com'' @ path) = ''https://old.reddit.com'' @ path"
  by (simp add: oldUrl_def)

lemma oldUrl_differs:
  assumes "prefix ''https://www.reddit.com'' u"
  shows "oldUrl u \<noteq> u"
proof -
  from assms obtain path where u: "u = ''https://www.reddit.com'' @ path"
    by (auto simp: prefix_def)
  have "''https://old.reddit.com'' @ path \<noteq> ''https://www.reddit.com'' @ path"
    by simp
  then show ?thesis
    unfolding u oldUrl_www .
qed

lemma andThen_eq:
  "andThen io p = (x, tr, n') \<longleftrightarrow> (\<exists>tr0. p = (x, tr0, n') \<and> tr = io @ tr0)"
  by (cases p) auto

lemma tryBlock_403: "status r = 403 \<Longrightarrow> tryBlock (Inr r) retries attempt = Break403"
  by (simp add: tryBlock_def ok_def)

lemma attemptLoop_over:
  "retries < attempt \<Longrightarrow> attemptLoop net v retries attempt le n = (Exhausted le, [], n)"
  by (subst attemptLoop.simps) simp

text \<open>One turn of the inner loop: it is over, or this attempt ends it, or another follows.\<close>

lemma attemptLoop_cases [consumes 1, case_names over ends sleeps]:
  assumes run: "attemptLoop net v retries attempt le n = (x, tr, n')"
  obtains
    (over) "retries < attempt" "x = Exhausted le" "tr = []" "n' = n"
  | (ends) "attempt \<le> retries" "tr = [Fetch v (net n v)]" "n' = Suc n"
      "\<And>r. net n v = Inr r \<Longrightarrow> status r = 403 \<Longrightarrow> x = Exhausted (Some (Error blockedMessage))"
      "\<And>j. x = Returned j \<Longrightarrow> \<exists>r. net n v = Inr r \<and> ok r \<and> json r = j"
  | (sleeps) le' ms tr0 where "attempt < retries"
      "\<And>r. net n v = Inr r \<Longrightarrow> status r \<noteq> 403"
      "tr = Fetch v (net n v) # Sleep ms # tr0"
      "attemptLoop net v retries (Suc attempt) le' (Suc n) = (x, tr0, n')"
proof (cases "attempt \<le> retries")
  case False
  with run over show ?thesis
    by (simp add: attemptLoop_over)
next
  case True
  note unfold = run [unfolded attemptLoop.simps [of net v retries attempt le n]]
  show ?thesis
  proof (cases "tryBlock (net n v) retries attempt")
    case (Return j)
    with True unfold have "tr = [Fetch v (net n v)]" "n' = Suc n" "x = Returned j" by simp_all
    moreover from Return have "\<And>r. net n v = Inr r \<Longrightarrow> status r = 403 \<Longrightarrow> False"
      by (auto simp: tryBlock_403)
    moreover from Return have "\<exists>r. net n v = Inr r \<and> ok r \<and> json r = j"
      by (auto simp: tryBlock_def split: sum.splits if_splits)
    ultimately show ?thesis using True by (intro ends) auto
  next
    case (Continue429 ms)
    then have no403: "\<And>r. net n v = Inr r \<Longrightarrow> status r \<noteq> 403"
      by (auto simp: tryBlock_403)
    from Continue429 have lt: "attempt < retries"
      by (auto simp: tryBlock_def split: sum.splits if_splits)
    from True Continue429 unfold obtain tr0 where
      "attemptLoop net v retries (Suc attempt) le (Suc n) = (x, tr0, n')"
      "tr = Fetch v (net n v) # Sleep ms # tr0"
      by (auto simp: andThen_eq)
    with lt no403 show ?thesis by (intro sleeps)
  next
    case Break403
    with True unfold show ?thesis by (intro ends) auto
  next
    case (Throw error)
    then have no403: "\<And>r. net n v = Inr r \<Longrightarrow> status r = 403 \<Longrightarrow> False"
      by (auto simp: tryBlock_403)
    show ?thesis
    proof (cases "mentionsReddit error")
      case True
      with \<open>attempt \<le> retries\<close> Throw unfold
      have "tr = [Fetch v (net n v)]" "n' = Suc n" "x = Exhausted (Some error)"
        by simp_all
      with \<open>attempt \<le> retries\<close> no403 show ?thesis by (intro ends) auto
    next
      case False
      show ?thesis
      proof (cases "attempt < retries")
        case True
        with False Throw unfold obtain tr0 where
          "attemptLoop net v retries (Suc attempt) (Some (asError error)) (Suc n) = (x, tr0, n')"
          "tr = Fetch v (net n v) # Sleep 2000 # tr0"
          by (auto simp: andThen_eq)
        with True no403 show ?thesis by (intro sleeps) auto
      next
        case last: False
        with \<open>attempt \<le> retries\<close> have "retries < Suc attempt" by simp
        from attemptLoop_over [OF this] last False Throw \<open>attempt \<le> retries\<close> unfold
        have "tr = [Fetch v (net n v)]" "n' = Suc n" "x = Exhausted (Some (asError error))"
          by simp_all
        with \<open>attempt \<le> retries\<close> no403 show ?thesis by (intro ends) auto
      qed
    qed
  qed
qed

lemma attemptLoop_head:
  "attempt \<le> retries \<Longrightarrow> attemptLoop net v retries attempt le n = (x, tr, n') \<Longrightarrow>
   \<exists>tr'. tr = Fetch v (net n v) # tr'"
  by (erule attemptLoop_cases) auto

lemma attemptLoop_effects:
  "attemptLoop net v retries attempt le n = (x, tr, n') \<Longrightarrow>
   e \<in> set tr \<Longrightarrow> (\<exists>r. e = Fetch v r) \<or> (\<exists>ms. e = Sleep ms)"
proof (induction "Suc retries - attempt" arbitrary: attempt le n tr)
  case 0
  then have "retries < attempt" by simp
  from attemptLoop_over [OF this] 0 show ?case by simp
next
  case (Suc k)
  from Suc.prems(1) show ?case
  proof (cases rule: attemptLoop_cases)
    case over
    with Suc.prems(2) show ?thesis by simp
  next
    case ends
    with Suc.prems(2) show ?thesis by simp
  next
    case (sleeps le' ms tr0)
    have "k = Suc retries - Suc attempt" using Suc.hyps(2) by simp
    from Suc.hyps(1) [OF this sleeps(4)] sleeps(3) Suc.prems(2) show ?thesis by auto
  qed
qed

lemma attemptLoop_other_url:
  "attemptLoop net v retries attempt le n = (x, tr, n') \<Longrightarrow> w \<noteq> v \<Longrightarrow> Fetch w r \<notin> set tr"
  by (auto dest: attemptLoop_effects)

lemma attemptLoop_403_last:
  "attemptLoop net v retries attempt le n = (x, tr, n') \<Longrightarrow>
   tr = pre @ Fetch w (Inr r) # post \<Longrightarrow> status r = 403 \<Longrightarrow>
   post = [] \<and> x = Exhausted (Some (Error blockedMessage))"
proof (induction "Suc retries - attempt" arbitrary: attempt le n tr pre)
  case 0
  then have "retries < attempt" by simp
  from attemptLoop_over [OF this] 0 show ?case by simp
next
  case (Suc k)
  from Suc.prems(1) show ?case
  proof (cases rule: attemptLoop_cases)
    case over
    with Suc.prems(2) show ?thesis by simp
  next
    case ends
    with Suc.prems(2,3) show ?thesis
      by (auto simp: Cons_eq_append_conv)
  next
    case (sleeps le' ms tr0)
    have k: "k = Suc retries - Suc attempt" using Suc.hyps(2) by simp
    from sleeps(3) Suc.prems(2)
    have "Fetch v (net n v) # Sleep ms # tr0 = pre @ Fetch w (Inr r) # post" by simp
    with sleeps(2) Suc.prems(3) obtain pre1 where
      "Sleep ms # tr0 = pre1 @ Fetch w (Inr r) # post"
      by (auto simp: Cons_eq_append_conv)
    then obtain pre' where "tr0 = pre' @ Fetch w (Inr r) # post"
      by (auto simp: Cons_eq_append_conv)
    from Suc.hyps(1) [OF k sleeps(4) this Suc.prems(3)] show ?thesis .
  qed
qed

lemma append_at:
  "tr1 @ tr2 = pre @ a # post \<Longrightarrow>
   (\<exists>post1. tr1 = pre @ a # post1 \<and> post = post1 @ tr2)
   \<or> (\<exists>pre2. pre = tr1 @ pre2 \<and> tr2 = pre2 @ a # post)"
  by (auto simp: append_eq_append_conv2 Cons_eq_append_conv append_eq_Cons_conv)


text \<open>The two turns of the outer loop.\<close>

lemma fetchRedditJSON_cases [consumes 1, case_names primary fallback failed]:
  assumes run: "fetchRedditJSON net u retries n = (res, tr, n')"
  obtains
    (primary) "attemptLoop net u retries 0 None n = (Returned res, tr, n')"
  | (fallback) le1 tr1 n1 tr2 where
      "attemptLoop net u retries 0 None n = (Exhausted le1, tr1, n1)"
      "attemptLoop net (oldUrl u) retries 0 le1 n1 = (Returned res, tr2, n')"
      "tr = tr1 @ tr2"
  | (failed) le1 tr1 n1 le2 tr2 where
      "attemptLoop net u retries 0 None n = (Exhausted le1, tr1, n1)"
      "attemptLoop net (oldUrl u) retries 0 le1 n1 = (Exhausted le2, tr2, n')"
      "tr = tr1 @ tr2"
      "res = Inl (case le2 of Some e \<Rightarrow> e | None \<Rightarrow> Error ''Failed to fetch from Reddit'')"
proof -
  obtain x1 tr1 n1 where a1: "attemptLoop net u retries 0 None n = (x1, tr1, n1)"
    by (cases "attemptLoop net u retries 0 None n") auto
  show ?thesis
  proof (cases x1)
    case (Returned j)
    with a1 run show ?thesis
      by (intro primary) (simp add: fetchRedditJSON_def)
  next
    case (Exhausted le1)
    obtain x2 tr2 n2 where a2: "attemptLoop net (oldUrl u) retries 0 le1 n1 = (x2, tr2, n2)"
      by (cases "attemptLoop net (oldUrl u) retries 0 le1 n1") auto
    show ?thesis
    proof (cases x2)
      case (Returned j)
      with a1 a2 Exhausted run show ?thesis
        by (intro fallback [of le1 tr1 n1 tr2]) (simp_all add: fetchRedditJSON_def)
    next
      case ex2: (Exhausted le2)
      with a1 a2 Exhausted run show ?thesis
        by (intro failed [of le1 tr1 n1 le2 tr2]) (simp_all add: fetchRedditJSON_def)
    qed
  qed
qed

text \<open>Where a request answered with status 403 stands in the trace of a call.\<close>

lemma blocked_at:
  assumes run: "fetchRedditJSON net u retries n = (res, tr, n')"
    and www: "prefix ''https://www.reddit.com'' u"
    and at: "tr = pre @ Fetch v (Inr r) # post"
    and blocked: "status r = 403"
  shows "(\<forall>e\<in>set post. \<forall>r'. e \<noteq> Fetch v r')
       \<and> (v = u \<or> v = oldUrl u)
       \<and> (v = u \<longrightarrow> (\<exists>r' post'. post = Fetch (oldUrl u) r' # post'))
       \<and> (v = oldUrl u \<longrightarrow>
            post = [] \<and> res = Inl (Error blockedMessage) \<and> (\<exists>r0. Fetch u r0 \<in> set pre))"
proof -
  note differs = oldUrl_differs [OF www]
  from run show ?thesis
  proof (cases rule: fetchRedditJSON_cases)
    case primary
    from attemptLoop_403_last [OF primary at blocked] show ?thesis by simp
  next
    case (fallback le1 tr1 n1 tr2)
    from fallback(3) at have "tr1 @ tr2 = pre @ Fetch v (Inr r) # post" by simp
    from append_at [OF this] show ?thesis
    proof (elim disjE exE conjE)
      fix post1 assume tr1: "tr1 = pre @ Fetch v (Inr r) # post1" and post: "post = post1 @ tr2"
      from attemptLoop_403_last [OF fallback(1) tr1 blocked] have "post1 = []" by simp
      moreover from attemptLoop_effects [OF fallback(1), of "Fetch v (Inr r)"] tr1
      have "v = u" by simp
      moreover from attemptLoop_head [OF _ fallback(2)]
      obtain tr' where "tr2 = Fetch (oldUrl u) (net n1 (oldUrl u)) # tr'" by auto
      moreover have "\<forall>e\<in>set tr2. \<forall>r'. e \<noteq> Fetch u r'"
        using attemptLoop_other_url [OF fallback(2), of u] differs by auto
      ultimately show ?thesis using post differs by auto
    next
      fix pre2 assume "tr2 = pre2 @ Fetch v (Inr r) # post"
      from attemptLoop_403_last [OF fallback(2) this blocked] show ?thesis by simp
    qed
  next
    case (failed le1 tr1 n1 le2 tr2)
    from failed(3) at have "tr1 @ tr2 = pre @ Fetch v (Inr r) # post" by simp
    from append_at [OF this] show ?thesis
    proof (elim disjE exE conjE)
      fix post1 assume tr1: "tr1 = pre @ Fetch v (Inr r) # post1" and post: "post = post1 @ tr2"
      from attemptLoop_403_last [OF failed(1) tr1 blocked] have "post1 = []" by simp
      moreover from attemptLoop_effects [OF failed(1), of "Fetch v (Inr r)"] tr1
      have "v = u" by simp
      moreover from attemptLoop_head [OF _ failed(2)]
      obtain tr' where "tr2 = Fetch (oldUrl u) (net n1 (oldUrl u)) # tr'" by auto
      moreover have "\<forall>e\<in>set tr2. \<forall>r'. e \<noteq> Fetch u r'"
        using attemptLoop_other_url [OF failed(2), of u] differs by auto
      ultimately show ?thesis using post differs by auto
    next
      fix pre2 assume pre: "pre = tr1 @ pre2" and tr2: "tr2 = pre2 @ Fetch v (Inr r) # post"
      from attemptLoop_403_last [OF failed(2) tr2 blocked]
      have "post = []" "le2 = Some (Error blockedMessage)" by simp_all
      moreover from attemptLoop_effects [OF failed(2), of "Fetch v (Inr r)"] tr2
      have "v = oldUrl u" by simp
      moreover from attemptLoop_head [OF _ failed(1)]
      obtain tr' where "tr1 = Fetch u (net n u) # tr'" by auto
      ultimately show ?thesis using failed(4) pre differs by auto
    qed
  qed
qed

text \<open>
  C9. Take a call of \<open>fetchRedditJSON\<close> on a URL of the primary host, and a request in
  its trace that was answered with status 403. No later request of the call goes to the URL
  that was blocked. When it was the primary URL, the very next effect is a request to the
  fallback URL. When it was the fallback URL, the primary URL has been requested before, the
  call makes no further request and fails with the blocked error. Either way the call does
  not end before both URLs have been requested.
\<close>

theorem blocked_host_not_retried:
  assumes run: "fetchRedditJSON net u retries n = (res, tr, n')"
    and www: "prefix ''https://www.reddit.com'' u"
    and at: "tr = pre @ Fetch v (Inr r) # post"
    and blocked: "status r = 403"
  shows "(\<forall>e\<in>set post. \<forall>r'. e \<noteq> Fetch v r')
       \<and> (v = u \<or> v = oldUrl u)
       \<and> (v = u \<longrightarrow> (\<exists>r' post'. post = Fetch (oldUrl u) r' # post'))
       \<and> (v = oldUrl u \<longrightarrow>
            post = [] \<and> res = Inl (Error blockedMessage) \<and> (\<exists>r0. Fetch u r0 \<in> set pre))
       \<and> (\<exists>r1. Fetch u r1 \<in> set tr) \<and> (\<exists>r2. Fetch (oldUrl u) r2 \<in> set tr)"
proof -
  note b = blocked_at [OF assms]
  from b have "v = u \<or> v = oldUrl u" by simp
  then have "(\<exists>r1. Fetch u r1 \<in> set tr) \<and> (\<exists>r2. Fetch (oldUrl u) r2 \<in> set tr)"
  proof
    assume v: "v = u"
    with b obtain r' post' where "post = Fetch (oldUrl u) r' # post'" by blast
    with v at show ?thesis by auto
  next
    assume v: "v = oldUrl u"
    with b obtain r0 where "Fetch u r0 \<in> set pre" by blast
    with v at show ?thesis by auto
  qed
  with b show ?thesis by simp
qed

lemma blockedNet_fetch:
  "fetchRedditJSON blockedNet ''https://www.reddit.com/r/x/hot.json?limit=100'' 2 0 =
     (Inl (Error blockedMessage),
      [] @ Fetch ''https://www.reddit.com/r/x/hot.json?limit=100'' (Inr \<lparr> status = 403, json = Inl (Error ''Unexpected token <'') \<rparr>)
       # [Fetch ''https://old.reddit.com/r/x/hot.json?limit=100'' (statusResponse 403)], 2)"
  by (simp add: fetchRedditJSON_def oldUrl_def attemptLoop.simps [of _ _ 2 0] tryBlock_def
        blockedNet_def statusResponse_def ok_def)

theorem blocked_host_not_retried_witness:
  "fetchRedditJSON blockedNet ''https://www.reddit.com/r/x/hot.json?limit=100'' 2 0 =
     (Inl (Error blockedMessage),
      [Fetch ''https://www.reddit.com/r/x/hot.json?limit=100'' (statusResponse 403),
       Fetch ''https://old.reddit.com/r/x/hot.json?limit=100'' (statusResponse 403)], 2)
   \<and> oldUrl ''https://www.reddit.com/r/x/hot.json?limit=100''
       = ''https://old.reddit.com/r/x/hot.json?limit=100''"
  using blocked_host_not_retried [OF blockedNet_fetch _ refl] blockedNet_fetch
  by (simp add: statusResponse_def oldUrl_def)


section \<open>The loop over the children of a page\<close>

lemma events_append [simp]: "events (a @ b) = events a @ events b"
  by (induction a rule: events.induct) auto

lemma scanChildren_Cons:
  "scanChildren skipCount totalNeeded (child # rest) allPosts =
     (if isMediaPost child then scanChildren skipCount totalNeeded rest allPosts
      else if needed totalNeeded \<le> Suc (length allPosts) then
        (allPosts @ [extractPost child], [Emit (postProgress (Suc (length allPosts)) skipCount)])
      else
        (fst (scanChildren skipCount totalNeeded rest (allPosts @ [extractPost child])),
         Emit (postProgress (Suc (length allPosts)) skipCount)
         # snd (scanChildren skipCount totalNeeded rest (allPosts @ [extractPost child]))))"
  unfolding needed_le [symmetric] by (simp add: Let_def case_prod_unfold)

declare scanChildren.simps(2) [simp del]

lemma scan_posts:
  "length allPosts < needed totalNeeded \<Longrightarrow>
   fst (scanChildren skipCount totalNeeded children allPosts) =
     allPosts @ take (needed totalNeeded - length allPosts) (map extractPost (qualifying children))"
proof (induction children arbitrary: allPosts)
  case Nil
  then show ?case by (simp add: qualifying_def)
next
  case (Cons child rest)
  show ?case
  proof (cases "isMediaPost child")
    case True
    with Cons show ?thesis by (simp add: qualifying_def scanChildren_Cons)
  next
    case False
    from Cons.prems obtain k where k: "needed totalNeeded - length allPosts = Suc k"
      by (cases "needed totalNeeded - length allPosts") auto
    show ?thesis
    proof (cases "needed totalNeeded \<le> Suc (length allPosts)")
      case True
      with k have "k = 0" by arith
      with True False k show ?thesis by (simp add: qualifying_def scanChildren_Cons)
    next
      case more: False
      then have "length (allPosts @ [extractPost child]) < needed totalNeeded" by simp
      moreover from k have "needed totalNeeded - Suc (length allPosts) = k" by arith
      ultimately show ?thesis using Cons.IH [of "allPosts @ [extractPost child]"] more False k
        by (simp add: qualifying_def scanChildren_Cons)
    qed
  qed
qed

lemma scan_events:
  "length allPosts < needed totalNeeded \<Longrightarrow>
   snd (scanChildren skipCount totalNeeded children allPosts) =
     map (\<lambda>k. Emit (postProgress k skipCount))
       [Suc (length allPosts)..<
        Suc (length (fst (scanChildren skipCount totalNeeded children allPosts)))]"
proof (induction children arbitrary: allPosts)
  case Nil
  then show ?case by simp
next
  case (Cons child rest)
  show ?case
  proof (cases "isMediaPost child")
    case True
    with Cons show ?thesis by (simp add: scanChildren_Cons)
  next
    case False
    show ?thesis
    proof (cases "needed totalNeeded \<le> Suc (length allPosts)")
      case True
      with False show ?thesis by (simp add: scanChildren_Cons)
    next
      case more: False
      then have lt: "length (allPosts @ [extractPost child]) < needed totalNeeded" by simp
      have "Suc (length allPosts) \<le> length (fst (scanChildren skipCount totalNeeded rest (allPosts @ [extractPost child])))"
        by (simp add: scan_posts [OF lt])
      with Cons.IH [OF lt] more False show ?thesis
        by (simp add: upt_conv_Cons scanChildren_Cons del: upt_Suc)
    qed
  qed
qed

lemma scan_length:
  "length allPosts < needed totalNeeded \<Longrightarrow>
   length (fst (scanChildren skipCount totalNeeded children allPosts)) \<le> needed totalNeeded"
  by (simp add: scan_posts)



section \<open>What a fetch leaves in the trace\<close>

lemma attemptLoop_events:
  "attemptLoop net v retries attempt le n = (x, tr, n') \<Longrightarrow> events tr = []"
proof (induction "Suc retries - attempt" arbitrary: attempt le n tr)
  case 0
  then have "retries < attempt" by simp
  from attemptLoop_over [OF this] 0 show ?case by simp
next
  case (Suc k)
  from Suc.prems(1) show ?case
  proof (cases rule: attemptLoop_cases)
    case (sleeps le' ms tr0)
    have "k = Suc retries - Suc attempt" using Suc.hyps(2) by simp
    from Suc.hyps(1) [OF this sleeps(4)] sleeps(3) show ?thesis by simp
  qed simp_all
qed

lemma attemptLoop_returned:
  "attemptLoop net v retries attempt le n = (Returned j, tr, n') \<Longrightarrow>
   \<exists>r. Fetch v (Inr r) \<in> set tr \<and> ok r \<and> json r = j"
proof (induction "Suc retries - attempt" arbitrary: attempt le n tr)
  case 0
  then have "retries < attempt" by simp
  from attemptLoop_over [OF this] 0 show ?case by simp
next
  case (Suc k)
  from Suc.prems(1) show ?case
  proof (cases rule: attemptLoop_cases)
    case over
    then show ?thesis by simp
  next
    case ends
    from ends(5) [OF refl] ends(2) show ?thesis by auto
  next
    case (sleeps le' ms tr0)
    have "k = Suc retries - Suc attempt" using Suc.hyps(2) by simp
    from Suc.hyps(1) [OF this sleeps(4)] sleeps(3) show ?thesis by auto
  qed
qed

lemma fetch_events: "fetchRedditJSON net u retries n = (res, tr, n') \<Longrightarrow> events tr = []"
  by (erule fetchRedditJSON_cases) (auto dest: attemptLoop_events)

lemma pageOf_listed: "e \<in> set tr \<Longrightarrow> d \<in> set (pageOf e) \<Longrightarrow> d \<in> set (listedPosts tr)"
  by (auto simp: listedPosts_def)

lemma fetch_listed:
  assumes "fetchRedditJSON net u retries n = (Inr (Listing l), tr, n')"
    and "listing_children l = Some children"
  shows "set children \<subseteq> set (listedPosts tr)"
proof -
  from assms(1) obtain v r where "Fetch v (Inr r) \<in> set tr" "ok r" "json r = Inr (Listing l)"
    by (cases rule: fetchRedditJSON_cases) (auto dest!: attemptLoop_returned)
  then show ?thesis using assms(2)
    by (auto intro!: pageOf_listed [of "Fetch v (Inr r)"])
qed

lemma listedPosts_append [simp]: "listedPosts (a @ b) = listedPosts a @ listedPosts b"
  by (simp add: listedPosts_def)


section \<open>fetchPosts\<close>

text \<open>One turn of the loop over the pages.\<close>

lemma fetchPostsLoop_cases [consumes 1, case_names stop threw bad empty final again]:
  assumes run: "fetchPostsLoop net sr sm skipCount totalNeeded allPosts after attempts n
                  = (res, tr, n')"
  obtains
    (stop) "\<not> (length allPosts < needed totalNeeded \<and> attempts < maxAttempts)"
      "res = Inr allPosts" "tr = []" "n' = n"
  | (threw) e where "length allPosts < needed totalNeeded" "attempts < maxAttempts"
      "fetchRedditJSON net (listingUrl sr sm after) 2 n = (Inl e, tr, n')" "res = Inl e"
  | (bad) b e where "length allPosts < needed totalNeeded" "attempts < maxAttempts"
      "fetchRedditJSON net (listingUrl sr sm after) 2 n = (Inr b, tr, n')"
      "res = Inl e" "\<And>l. b \<noteq> Listing l"
  | (empty) l where "length allPosts < needed totalNeeded" "attempts < maxAttempts"
      "fetchRedditJSON net (listingUrl sr sm after) 2 n = (Inr (Listing l), tr, n')"
      "listing_children l = None \<or> listing_children l = Some []" "res = Inr allPosts"
  | (final) l children tr0 where "length allPosts < needed totalNeeded" "attempts < maxAttempts"
      "fetchRedditJSON net (listingUrl sr sm after) 2 n = (Inr (Listing l), tr0, n')"
      "listing_children l = Some children" "children \<noteq> []" "\<not> truthy (listing_after l)"
      "res = Inr (fst (scanChildren skipCount totalNeeded children allPosts))"
      "tr = tr0 @ snd (scanChildren skipCount totalNeeded children allPosts)"
  | (again) l children tr0 n0 tr1 where "length allPosts < needed totalNeeded" "attempts < maxAttempts"
      "fetchRedditJSON net (listingUrl sr sm after) 2 n = (Inr (Listing l), tr0, n0)"
      "listing_children l = Some children" "children \<noteq> []" "truthy (listing_after l)"
      "fetchPostsLoop net sr sm skipCount totalNeeded
         (fst (scanChildren skipCount totalNeeded children allPosts)) (listing_after l)
         (Suc attempts) n0 = (res, tr1, n')"
      "tr = tr0 @ snd (scanChildren skipCount totalNeeded children allPosts)
            @ Sleep DELAY_BETWEEN_REQUESTS # tr1"
proof (cases "length allPosts < needed totalNeeded \<and> attempts < maxAttempts")
  case False
  with run stop show ?thesis
    by (subst (asm) fetchPostsLoop.simps) (simp add: less_needed)
next
  case True
  obtain r tr0 n0 where f: "fetchRedditJSON net (listingUrl sr sm after) 2 n = (r, tr0, n0)"
    by (cases "fetchRedditJSON net (listingUrl sr sm after) 2 n") auto
  note unfold = run [unfolded fetchPostsLoop.simps
      [of net sr sm skipCount totalNeeded allPosts after attempts n] less_needed]
  show ?thesis
  proof (cases r)
    case (Inl e)
    with True f unfold show ?thesis by (intro threw [where e=e]) auto
  next
    case (Inr b)
    show ?thesis
    proof (cases b)
      case (Thread segs)
      with True f Inr unfold show ?thesis
        by (intro bad [where b=b and e="cannotRead ''undefined'' ''children''"]) auto
    next
      case JsonNull
      with True f Inr unfold show ?thesis
        by (intro bad [where b=b and e="cannotRead ''null'' ''data''"]) auto
    next
      case Unshaped
      with True f Inr unfold show ?thesis
        by (intro bad [where b=b and e="cannotRead ''undefined'' ''children''"]) auto
    next
      case (Listing l)
      show ?thesis
      proof (cases "listing_children l")
        case None
        with True f Inr Listing unfold show ?thesis by (intro empty [where l=l]) auto
      next
        case (Some children)
        show ?thesis
        proof (cases "children = []")
          case True
          with \<open>length allPosts < needed totalNeeded \<and> attempts < maxAttempts\<close> f Inr Listing Some unfold
          show ?thesis by (intro empty [where l=l]) auto
        next
          case False
          show ?thesis
          proof (cases "truthy (listing_after l)")
            case nomore: False
            with False True f Inr Listing Some unfold show ?thesis
              by (intro final [where l=l and children=children and ?tr0.0=tr0])
                 (auto simp: case_prod_unfold)
          next
            case True
            with False \<open>length allPosts < needed totalNeeded \<and> attempts < maxAttempts\<close> f Inr Listing
              Some unfold
            obtain tr1 where
              "fetchPostsLoop net sr sm skipCount totalNeeded
                 (fst (scanChildren skipCount totalNeeded children allPosts)) (listing_after l)
                 (Suc attempts) n0 = (res, tr1, n')"
              "tr = tr0 @ snd (scanChildren skipCount totalNeeded children allPosts)
                    @ Sleep DELAY_BETWEEN_REQUESTS # tr1"
              by (auto simp: case_prod_unfold andThen_eq)
            with False True \<open>length allPosts < needed totalNeeded \<and> attempts < maxAttempts\<close> f Inr
              Listing Some
            show ?thesis
              by (intro again [where l=l and children=children and ?tr0.0=tr0 and ?n0.0=n0
                    and ?tr1.0=tr1]) auto
          qed
        qed
      qed
    qed
  qed
qed


lemma upt_split: "i \<le> j \<Longrightarrow> j \<le> k \<Longrightarrow> [i..<k] = [i..<j] @ [j..<k]"
  by (metis le_add_diff_inverse upt_add_eq_append)

lemma scan_members:
  assumes "length allPosts < needed totalNeeded"
    and "p \<in> set (fst (scanChildren skipCount totalNeeded children allPosts))"
  shows "p \<in> set allPosts \<or> (\<exists>d\<in>set children. \<not> isMediaPost d \<and> p = extractPost d)"
  using assms(2) unfolding scan_posts [OF assms(1)]
  by (auto simp: qualifying_def dest!: in_set_takeD)

lemma loop_members:
  "fetchPostsLoop net sr sm skipCount totalNeeded allPosts after attempts n = (Inr posts, tr, n')
   \<Longrightarrow> p \<in> set posts
   \<Longrightarrow> p \<in> set allPosts \<or> (\<exists>d\<in>set (listedPosts tr). \<not> isMediaPost d \<and> p = extractPost d)"
proof (induction "maxAttempts - attempts" arbitrary: allPosts after attempts n tr)
  case 0
  from "0.prems"(1) show ?case
    by (cases rule: fetchPostsLoop_cases) (use 0 in auto)
next
  case (Suc k)
  from Suc.prems(1) show ?case
  proof (cases rule: fetchPostsLoop_cases)
    case stop
    with Suc.prems(2) show ?thesis by simp
  next
    case (threw e)
    then show ?thesis by simp
  next
    case (bad b e)
    then show ?thesis by simp
  next
    case (empty l)
    with Suc.prems(2) show ?thesis by simp
  next
    case (final l children tr0)
    from final(7) Suc.prems(2) scan_members [OF final(1), of p skipCount children]
    have "p \<in> set allPosts \<or> (\<exists>d\<in>set children. \<not> isMediaPost d \<and> p = extractPost d)"
      by simp
    with fetch_listed [OF final(3,4)] final(8) show ?thesis by auto
  next
    case (again l children tr0 n0 tr1)
    have "k = maxAttempts - Suc attempts" using Suc.hyps(2) by simp
    from Suc.hyps(1) [OF this again(7) Suc.prems(2)]
    have "p \<in> set (fst (scanChildren skipCount totalNeeded children allPosts))
          \<or> (\<exists>d\<in>set (listedPosts tr1). \<not> isMediaPost d \<and> p = extractPost d)" .
    with scan_members [OF again(1), of p skipCount children]
    have "p \<in> set allPosts \<or> (\<exists>d\<in>set children. \<not> isMediaPost d \<and> p = extractPost d)
          \<or> (\<exists>d\<in>set (listedPosts tr1). \<not> isMediaPost d \<and> p = extractPost d)"
      by blast
    with fetch_listed [OF again(3,4)] again(8) show ?thesis
      by (auto simp: listedPosts_def)
  qed
qed

lemma loop_events:
  "fetchPostsLoop net sr sm skipCount totalNeeded allPosts after attempts n = (res, tr, n')
   \<Longrightarrow> length allPosts \<le> needed totalNeeded
   \<Longrightarrow> \<exists>m. length allPosts \<le> m \<and> m \<le> needed totalNeeded
         \<and> events tr = map (\<lambda>k. postProgress k skipCount) [Suc (length allPosts)..<Suc m]
         \<and> (\<forall>posts. res = Inr posts \<longrightarrow> length posts = m)"
proof (induction "maxAttempts - attempts" arbitrary: allPosts after attempts n tr)
  case 0
  from "0.prems"(1) show ?case
    by (cases rule: fetchPostsLoop_cases) (use 0 in auto)
next
  case (Suc k)
  let ?scan = "\<lambda>children. scanChildren skipCount totalNeeded children allPosts"
  have scan: "events (snd (?scan children)) =
       map (\<lambda>k. postProgress k skipCount) [Suc (length allPosts)..<Suc (length (fst (?scan children)))]
       \<and> length allPosts \<le> length (fst (?scan children))
       \<and> length (fst (?scan children)) \<le> needed totalNeeded"
    if "length allPosts < needed totalNeeded" for children
  proof -
    have "events (map (\<lambda>k. Emit (postProgress k skipCount)) ks) = map (\<lambda>k. postProgress k skipCount) ks"
      for ks by (induction ks) auto
    with that show ?thesis
      by (simp add: scan_events scan_posts del: upt_Suc)
  qed
  from Suc.prems(1) show ?case
  proof (cases rule: fetchPostsLoop_cases)
    case stop
    with Suc.prems(2) show ?thesis by (intro exI [of _ "length allPosts"]) simp
  next
    case (threw e)
    with fetch_events [OF threw(3)] show ?thesis by (intro exI [of _ "length allPosts"]) simp
  next
    case (bad b e)
    with fetch_events [OF bad(3)] show ?thesis by (intro exI [of _ "length allPosts"]) simp
  next
    case (empty l)
    with fetch_events [OF empty(3)] show ?thesis by (intro exI [of _ "length allPosts"]) simp
  next
    case (final l children tr0)
    with fetch_events [OF final(3)] scan [OF final(1), of children] show ?thesis
      by (intro exI [of _ "length (fst (?scan children))"]) simp
  next
    case (again l children tr0 n0 tr1)
    have k: "k = maxAttempts - Suc attempts" using Suc.hyps(2) by simp
    note s = scan [OF again(1), of children]
    from Suc.hyps(1) [OF k again(7)] s obtain m where
      m: "length (fst (?scan children)) \<le> m" "m \<le> needed totalNeeded"
         "events tr1 = map (\<lambda>k. postProgress k skipCount) [Suc (length (fst (?scan children)))..<Suc m]"
         "\<forall>posts. res = Inr posts \<longrightarrow> length posts = m"
      by auto
    have "[Suc (length allPosts)..<Suc m] =
          [Suc (length allPosts)..<Suc (length (fst (?scan children)))]
          @ [Suc (length (fst (?scan children)))..<Suc m]"
      using s m(1) by (intro upt_split) auto
    with m s again(8) fetch_events [OF again(3)] show ?thesis
      by (intro exI [of _ m]) (simp del: upt_Suc)
  qed
qed



section \<open>A listing served page by page\<close>







lemma fetchPosts_length:
  assumes "fetchPosts net sr sm targetCount skipCount n = (Inr posts, tr, n')"
    and "0 \<le> skipCount" "whole skipCount" "0 \<le> targetCount" "whole targetCount"
  shows "of_nat (length posts) \<le> targetCount"
proof -
  from assms(1) obtain allPosts where
    "posts = slice skipCount (skipCount + targetCount) allPosts"
    by (auto simp: fetchPosts_def split: prod.splits sum.splits)
  with slice_length [OF assms(2-5)] show ?thesis by simp
qed








section \<open>isMediaPost\<close>

lemma endsWith_lower:
  "endsWith (toLowerCase u) ext \<longleftrightarrow> (\<exists>s. suffix s u \<and> toLowerCase s = ext)"
proof
  assume "endsWith (toLowerCase u) ext"
  then obtain zs where "map lowerChar u = zs @ ext"
    by (auto simp: endsWith_def toLowerCase_def suffix_def)
  then obtain a b where "u = a @ b" "map lowerChar b = ext"
    by (auto simp: map_eq_append_conv)
  then show "\<exists>s. suffix s u \<and> toLowerCase s = ext"
    by (auto simp: toLowerCase_def suffix_def)
next
  assume "\<exists>s. suffix s u \<and> toLowerCase s = ext"
  then show "endsWith (toLowerCase u) ext"
    by (auto simp: endsWith_def toLowerCase_def suffix_def)
qed

lemma member_Present: "m \<noteq> Undefined \<and> m \<noteq> Null \<longleftrightarrow> m = Present"
  by (cases m) auto

lemma isMediaPost_iff:
  "isMediaPost d \<longleftrightarrow>
     (\<exists>hint\<in>{''image'', ''hosted:video'', ''rich:video'', ''gallery''}. pd_post_hint d = Some hint)
     \<or> pd_is_gallery d = Some True
     \<or> (\<exists>ext\<in>{''.jpg'', ''.jpeg'', ''.png'', ''.gif'', ''.webp''}.
          \<exists>s. suffix s (case pd_url d of None \<Rightarrow> [] | Some u \<Rightarrow> u) \<and> toLowerCase s = ext)
     \<or> pd_preview d = Present
     \<or> pd_media d = Present"
proof -
  have hint: "(case pd_post_hint d of None \<Rightarrow> False
               | Some postHint \<Rightarrow> postHint \<noteq> [] \<and> postHint \<in> set mediaHints)
        \<longleftrightarrow> (\<exists>hint\<in>{''image'', ''hosted:video'', ''rich:video'', ''gallery''}. pd_post_hint d = Some hint)"
    by (cases "pd_post_hint d") (auto simp: mediaHints_def)
  have ext: "list_ex (\<lambda>ext. endsWith (toLowerCase u) ext) mediaExtensions
        \<longleftrightarrow> (\<exists>ext\<in>{''.jpg'', ''.jpeg'', ''.png'', ''.gif'', ''.webp''}.
              \<exists>s. suffix s u \<and> toLowerCase s = ext)" for u
    unfolding endsWith_lower by (simp add: mediaExtensions_def)
  show ?thesis
    unfolding isMediaPost_def hint Let_def ext member_Present by auto
qed

text \<open>
  C6, with the hints as the code spells them. Every post that \<open>fetchPosts\<close> returns is extracted from a child of a listing it
  fetched for which \<open>isMediaPost\<close> is false; and \<open>isMediaPost\<close> is true exactly when the
  post hint is one of \<open>image\<close>, \<open>hosted:video\<close>, \<open>rich:video\<close>, \<open>gallery\<close>, or the
  gallery flag is \<open>true\<close>, or the URL ends with one of the five image extensions in any
  mixture of cases, or the preview is present and not null, or the media is present and not
  null.
\<close>

theorem fetchPosts_text_only:
  assumes "fetchPosts net sr sm targetCount skipCount n = (Inr posts, tr, n')"
  shows "(\<forall>p\<in>set posts. \<exists>d\<in>set (listedPosts tr). p = extractPost d \<and> \<not> isMediaPost d)
       \<and> (\<forall>d. isMediaPost d \<longleftrightarrow>
             (\<exists>hint\<in>{''image'', ''hosted:video'', ''rich:video'', ''gallery''}.
                 pd_post_hint d = Some hint)
             \<or> pd_is_gallery d = Some True
             \<or> (\<exists>ext\<in>{''.jpg'', ''.jpeg'', ''.png'', ''.gif'', ''.webp''}.
                  \<exists>s. suffix s (case pd_url d of None \<Rightarrow> [] | Some u \<Rightarrow> u)
                      \<and> toLowerCase s = ext)
             \<or> pd_preview d = Present
             \<or> pd_media d = Present)"
proof -
  from assms obtain allPosts where
    loop: "fetchPostsLoop net sr sm skipCount (skipCount + targetCount) [] None 0 n
             = (Inr allPosts, tr, n')"
    and posts: "posts = slice skipCount (skipCount + targetCount) allPosts"
    by (auto simp: fetchPosts_def split: prod.splits sum.splits)
  have "\<exists>d\<in>set (listedPosts tr). p = extractPost d \<and> \<not> isMediaPost d" if "p \<in> set posts" for p
  proof -
    from that posts have "p \<in> set allPosts"
      using set_slice by fastforce
    from loop_members [OF loop this] show ?thesis by auto
  qed
  then show ?thesis using isMediaPost_iff by blast
qed

lemma listingNet_posts:
  "fetchPosts (listingNet [[imagePost, postA], [postB]]) ''x'' New 2 0 0 =
     (Inr [extractPost postA, extractPost postB],
      [Fetch ''https://www.reddit.com/r/x/new.json?limit=100''
         (okResponse (Listing (page [[imagePost, postA], [postB]] 0))),
       Emit (postProgress 1 0),
       Sleep 2000,
       Fetch ''https://www.reddit.com/r/x/new.json?limit=100&after=t3_1''
         (okResponse (Listing (page [[imagePost, postA], [postB]] 1))),
       Emit (postProgress 2 0)],
      2)"
  by code_simp

theorem fetchPosts_text_only_witness:
  "set [extractPost postA, extractPost postB]
     \<subseteq> extractPost ` {d. d \<in> set (listedPosts
         [Fetch ''https://www.reddit.com/r/x/new.json?limit=100''
            (okResponse (Listing (page [[imagePost, postA], [postB]] 0))),
          Emit (postProgress 1 0),
          Sleep 2000,
          Fetch ''https://www.reddit.com/r/x/new.json?limit=100&after=t3_1''
            (okResponse (Listing (page [[imagePost, postA], [postB]] 1))),
          Emit (postProgress 2 0)]) \<and> \<not> isMediaPost d}"
  using fetchPosts_text_only [OF listingNet_posts] by auto

text \<open>
  C6, as the specification words it, fails: its rule spells two hints with a hyphen. A video
  post so hinted is a media post by that rule and none by \<open>isMediaPost\<close>, and
  \<open>fetchPosts\<close> returns it.
\<close>

theorem hyphenated_hint_counterexample:
  "pd_post_hint videoPost = Some ''hosted-video''
   \<and> isMedia videoPost
   \<and> \<not> isMediaPost videoPost
   \<and> fst (fetchPosts (listingNet [[videoPost]]) ''x'' New 1 0 0) = Inr [extractPost videoPost]"
proof -
  have "\<not> isMediaPost videoPost"
    "fst (fetchPosts (listingNet [[videoPost]]) ''x'' New 1 0 0) = Inr [extractPost videoPost]"
    by code_simp+
  then show ?thesis by (simp add: isMedia_def videoPost_def)
qed


section \<open>A run in the scenario\<close>

lemma scenario_run: "apiScrape scenarioNet (Inr scenarioConfig) = scenarioTrace"
  by code_simp



section \<open>The loop over the posts\<close>

lemma fetchComments_events:
  "fetchComments net link limit n = (res, tr, n') \<Longrightarrow> events tr = []"
  by (auto simp: fetchComments_def split: prod.splits sum.splits body.splits if_splits
        segment.splits dest: fetch_events)

text \<open>One turn of the loop over the posts.\<close>

lemma postLoop_cases [consumes 1, case_names finished fetched skipped]:
  assumes run: "postLoop net config posts i results totalComments n = (out, tr, n')"
  obtains
    (finished) "length posts \<le> i" "out = (results, totalComments)" "tr = []" "n' = n"
  | (fetched) message comments tr0 n0 tr1 where "i < length posts"
      "fetchComments net (permalink (posts ! i)) (commentsPerPost config) n
         = (Inr comments, tr0, n0)"
      "postLoop net config posts (Suc i)
         (results @ [exportRecord (exportMode config) (posts ! i) comments])
         (totalComments + length comments) n0 = (out, tr1, n')"
      "tr = Emit (Progress message (of_nat (length posts)) (Some i) (Some totalComments))
            # tr0 @ Sleep DELAY_BETWEEN_REQUESTS # tr1"
  | (skipped) message error line tr0 n0 tr1 where "i < length posts"
      "fetchComments net (permalink (posts ! i)) (commentsPerPost config) n
         = (Inl error, tr0, n0)"
      "postLoop net config posts (Suc i) results totalComments n0 = (out, tr1, n')"
      "tr = Emit (Progress message (of_nat (length posts)) (Some i) (Some totalComments))
            # tr0 @ ConsoleError line error # tr1"
proof (cases "i < length posts")
  case False
  with run finished show ?thesis
    by (subst (asm) postLoop.simps) simp
next
  case True
  obtain r tr0 n0 where
    f: "fetchComments net (permalink (posts ! i)) (commentsPerPost config) n = (r, tr0, n0)"
    by (cases "fetchComments net (permalink (posts ! i)) (commentsPerPost config) n") auto
  note unfold = run [unfolded postLoop.simps [of net config posts i results totalComments n]]
  show ?thesis
  proof (cases r)
    case (Inr comments)
    with True f unfold obtain tr1 where
      "postLoop net config posts (Suc i)
         (results @ [exportRecord (exportMode config) (posts ! i) comments])
         (totalComments + length comments) n0 = (out, tr1, n')"
      "tr = Emit (Progress (''Processing post '' @ showNat (i + 1) @ ''/''
                            @ showNat (length posts) @ ''...'')
                   (of_nat (length posts)) (Some i) (Some totalComments))
            # tr0 @ Sleep DELAY_BETWEEN_REQUESTS # tr1"
      by (auto simp: Let_def andThen_eq)
    with True f Inr show ?thesis by (intro fetched) auto
  next
    case (Inl error)
    with True f unfold obtain tr1 where
      "postLoop net config posts (Suc i) results totalComments n0 = (out, tr1, n')"
      "tr = Emit (Progress (''Processing post '' @ showNat (i + 1) @ ''/''
                            @ showNat (length posts) @ ''...'')
                   (of_nat (length posts)) (Some i) (Some totalComments))
            # tr0 @ ConsoleError (''Error fetching comments for post '' @ post_id (posts ! i)
                                  @ '':'') error # tr1"
      by (auto simp: Let_def andThen_eq)
    with True f Inl show ?thesis by (intro skipped) auto
  qed
qed

lemma postLoop_events:
  "postLoop net config posts i results totalComments n = (out, tr, n') \<Longrightarrow>
   e \<in> set (events tr) \<Longrightarrow> \<not> isTerminal e \<and> found e = [of_nat (length posts)]"
proof (induction "length posts - i" arbitrary: i results totalComments n tr)
  case 0
  from "0.prems"(1) show ?case
    by (cases rule: postLoop_cases) (use 0 in auto)
next
  case (Suc k)
  from Suc.prems(1) show ?case
  proof (cases rule: postLoop_cases)
    case finished
    with Suc.prems(2) show ?thesis by simp
  next
    case (fetched message comments tr0 n0 tr1)
    have "k = length posts - Suc i" using Suc.hyps(2) by simp
    from Suc.hyps(1) [OF this fetched(3)] fetched(4) fetchComments_events [OF fetched(2)]
      Suc.prems(2)
    show ?thesis by auto
  next
    case (skipped message error line tr0 n0 tr1)
    have "k = length posts - Suc i" using Suc.hyps(2) by simp
    from Suc.hyps(1) [OF this skipped(3)] skipped(4) fetchComments_events [OF skipped(2)]
      Suc.prems(2)
    show ?thesis by auto
  qed
qed

lemma postLoop_results:
  "postLoop net config posts i results totalComments n = (out, tr, n') \<Longrightarrow>
   out = (results @ map (\<lambda>(p, cs). exportRecord (exportMode config) p cs)
                      (successes (zip (drop i posts)
                         (commentOutcomes net (commentsPerPost config) (drop i posts) n))),
          totalComments + sum_list (map (\<lambda>(p, cs). length cs)
                      (successes (zip (drop i posts)
                         (commentOutcomes net (commentsPerPost config) (drop i posts) n)))))"
proof (induction "length posts - i" arbitrary: i results totalComments n tr)
  case 0
  from "0.prems"(1) show ?case
    by (cases rule: postLoop_cases) (use 0 in auto)
next
  case (Suc k)
  from Suc.prems(1) show ?case
  proof (cases rule: postLoop_cases)
    case finished
    then show ?thesis by simp
  next
    case (fetched message comments tr0 n0 tr1)
    have "k = length posts - Suc i" using Suc.hyps(2) by simp
    from Suc.hyps(1) [OF this fetched(3)] fetched(1,2) show ?thesis
      by (simp add: Cons_nth_drop_Suc [symmetric])
  next
    case (skipped message error line tr0 n0 tr1)
    have "k = length posts - Suc i" using Suc.hyps(2) by simp
    from Suc.hyps(1) [OF this skipped(3)] skipped(1,2) show ?thesis
      by (simp add: Cons_nth_drop_Suc [symmetric])
  qed
qed

lemma successes_length: "length (successes xs) \<le> length xs"
  by (induction xs rule: successes.induct) auto



section \<open>The stream\<close>

lemma fetchPosts_events:
  assumes "fetchPosts net sr sm targetCount skipCount n = (res, tr, n')"
  shows "\<exists>m. m \<le> needed (skipCount + targetCount)
           \<and> events tr = map (\<lambda>k. postProgress k skipCount) [1..<Suc m]
           \<and> (\<forall>posts. res = Inr posts \<longrightarrow>
                  (\<exists>allPosts. length allPosts = m
                     \<and> posts = slice skipCount (skipCount + targetCount) allPosts))"
proof -
  obtain r where
    loop: "fetchPostsLoop net sr sm skipCount (skipCount + targetCount) [] None 0 n = (r, tr, n')"
    and res: "res = (case r of Inl e \<Rightarrow> Inl e
                     | Inr allPosts \<Rightarrow> Inr (slice skipCount (skipCount + targetCount) allPosts))"
    using assms by (auto simp: fetchPosts_def split: prod.splits sum.splits)
  from loop_events [OF loop] obtain m where
    m: "m \<le> needed (skipCount + targetCount)"
       "events tr = map (\<lambda>k. postProgress k skipCount) [Suc 0..<Suc m]"
       "\<forall>posts. r = Inr posts \<longrightarrow> length posts = m"
    by auto
  have "\<exists>allPosts. length allPosts = m
          \<and> posts = slice skipCount (skipCount + targetCount) allPosts"
    if "res = Inr posts" for posts
    using that res m(3) by (cases r) auto
  with m(1,2) show ?thesis by auto
qed

lemma isTerminal_postProgress: "\<not> isTerminal (postProgress k skipCount)"
  by (simp add: postProgress_def Let_def)

lemma found_postProgress: "found (postProgress k skipCount) = [max 0 (of_nat k - skipCount)]"
  by (auto simp: postProgress_def Let_def)

text \<open>The three ways the stream of a validated request ends.\<close>

lemma scrapeStream_cases [case_names listing_failed no_posts completed]:
  obtains
    (listing_failed) message error tr n' where
      "fetchPosts net (subreddit config) (sortBy config) (postCount config) (skipPosts config) n
         = (Inl error, tr, n')"
      "scrapeStream net config n =
         (Emit (Progress message 0 (Some 0) (Some 0)) # tr)
         @ [Emit (ErrorEvent (errorMessage error)), End]"
  | (no_posts) message tr n' where
      "fetchPosts net (subreddit config) (sortBy config) (postCount config) (skipPosts config) n
         = (Inr [], tr, n')"
      "scrapeStream net config n =
         (Emit (Progress message 0 (Some 0) (Some 0)) # tr)
         @ [Emit (ErrorEvent ''No text posts found in this subreddit.''), End]"
  | (completed) message posts tr n' results totalComments tr' n'' where
      "fetchPosts net (subreddit config) (sortBy config) (postCount config) (skipPosts config) n
         = (Inr posts, tr, n')"
      "posts \<noteq> []"
      "postLoop net config posts 0 [] 0 n' = ((results, totalComments), tr', n'')"
      "scrapeStream net config n =
         (Emit (Progress message 0 (Some 0) (Some 0)) # tr @ tr'
          @ [Emit (Progress ''Finalizing...'' (of_nat (length posts)) (Some (length posts))
                     (Some totalComments))])
         @ [Emit (Complete (completeMessage config (length posts) totalComments) results), End]"
proof -
  obtain res tr n' where
    f: "fetchPosts net (subreddit config) (sortBy config) (postCount config) (skipPosts config) n
          = (res, tr, n')"
    by (cases "fetchPosts net (subreddit config) (sortBy config) (postCount config)
                 (skipPosts config) n") auto
  show ?thesis
  proof (cases res)
    case (Inl error)
    with f show ?thesis
      by (intro listing_failed [where error=error and tr=tr]) (auto simp: scrapeStream_def)
  next
    case (Inr posts)
    show ?thesis
    proof (cases "posts = []")
      case True
      with f Inr show ?thesis
        by (intro no_posts [where tr=tr]) (auto simp: scrapeStream_def)
    next
      case False
      obtain results totalComments tr' n'' where
        l: "postLoop net config posts 0 [] 0 n' = ((results, totalComments), tr', n'')"
        by (cases "postLoop net config posts 0 [] 0 n'") auto
      with f Inr False show ?thesis
        by (intro completed [where posts=posts and tr=tr and tr'=tr' and results=results
              and totalComments=totalComments])
           (auto simp: scrapeStream_def)
    qed
  qed
qed

text \<open>
  C1, for whole counts. The trace of a validated request ends with exactly one terminal
  event, \<open>complete\<close> or \<open>error\<close>, followed only by the end of the response; no event
  before it is terminal; and when \<open>postCount\<close> and \<open>skipPosts\<close> are whole numbers within
  the bounds of the schema, the data of a \<open>complete\<close> event holds at most \<open>postCount\<close>
  records.
\<close>

theorem one_terminal_event:
  "\<exists>tr terminal.
      apiScrape net (Inr config) = tr @ [Emit terminal, End]
      \<and> (\<forall>e\<in>set (events tr). \<not> isTerminal e)
      \<and> isTerminal terminal
      \<and> (\<forall>message data.
             terminal = Complete message data \<longrightarrow>
             scrapeConfigSchema config \<longrightarrow> whole (postCount config) \<longrightarrow> whole (skipPosts config) \<longrightarrow>
             of_nat (length data) \<le> postCount config)"
proof (cases rule: scrapeStream_cases [of net config 0])
  case (listing_failed message error tr n')
  from fetchPosts_events [OF listing_failed(1)] have "\<forall>e\<in>set (events tr). \<not> isTerminal e"
    by (auto simp: isTerminal_postProgress)
  with listing_failed(2) show ?thesis
    by (intro exI [of _ "FlushHeaders # Emit (Progress message 0 (Some 0) (Some 0)) # tr"]
          exI [of _ "ErrorEvent (errorMessage error)"])
       (simp add: apiScrape_def)
next
  case (no_posts message tr n')
  from fetchPosts_events [OF no_posts(1)] have "\<forall>e\<in>set (events tr). \<not> isTerminal e"
    by (auto simp: isTerminal_postProgress)
  with no_posts(2) show ?thesis
    by (intro exI [of _ "FlushHeaders # Emit (Progress message 0 (Some 0) (Some 0)) # tr"]
          exI [of _ "ErrorEvent ''No text posts found in this subreddit.''"])
       (simp add: apiScrape_def)
next
  case (completed message posts tr n' results totalComments tr' n'')
  from fetchPosts_events [OF completed(1)] have "\<forall>e\<in>set (events tr). \<not> isTerminal e"
    by (auto simp: isTerminal_postProgress)
  moreover from postLoop_events [OF completed(3)]
  have "\<forall>e\<in>set (events tr'). \<not> isTerminal e" by blast
  moreover have "of_nat (length results) \<le> postCount config"
    if "scrapeConfigSchema config" "whole (postCount config)" "whole (skipPosts config)"
  proof -
    from postLoop_results [OF completed(3)]
    have "length results \<le> length posts"
      using successes_length [of "zip posts (commentOutcomes net (commentsPerPost config) posts n')"]
      by simp
    then have "(of_nat (length results) :: number) \<le> of_nat (length posts)"
      by (simp only: of_nat_le_iff)
    moreover from that have "of_nat (length posts) \<le> postCount config"
      by (intro fetchPosts_length [OF completed(1)]) (simp_all add: scrapeConfigSchema_def)
    ultimately show ?thesis by simp
  qed
  ultimately show ?thesis using completed(4)
    by (intro exI [of _ "FlushHeaders # Emit (Progress message 0 (Some 0) (Some 0)) # tr @ tr'
            @ [Emit (Progress ''Finalizing...'' (of_nat (length posts)) (Some (length posts))
                       (Some totalComments))]"]
          exI [of _ "Complete (completeMessage config (length posts) totalComments) results"])
       (auto simp: apiScrape_def)
qed


lemma scenario_posts:
  "fetchPosts scenarioNet (subreddit scenarioConfig) (sortBy scenarioConfig)
     (postCount scenarioConfig) (skipPosts scenarioConfig) 0 =
     (Inr [extractPost postB, extractPost postA],
      [Fetch ''https://www.reddit.com/r/x/new.json?limit=100''
         (okResponse (Listing \<lparr> listing_children = Some [imagePost, postB, postA],
                                listing_after = None \<rparr>)),
       Emit (Progress ''Found 1 text posts (skipped 0)...'' 1 None None),
       Emit (Progress ''Found 2 text posts (skipped 0)...'' 2 None None)],
      1)"
  by code_simp

theorem one_terminal_event_witness:
  "events (apiScrape scenarioNet (Inr scenarioConfig)) =
     [Progress ''Fetching posts...'' 0 (Some 0) (Some 0),
      Progress ''Found 1 text posts (skipped 0)...'' 1 None None,
      Progress ''Found 2 text posts (skipped 0)...'' 2 None None,
      Progress ''Processing post 1/2...'' 2 (Some 0) (Some 0),
      Progress ''Processing post 2/2...'' 2 (Some 1) (Some 0),
      Progress ''Finalizing...'' 2 (Some 2) (Some 2),
      Complete ''Complete! Collected 2 posts with 2 comments.''
        [CleanExportItem (extractPost postA)
           [\<lparr> rank = 1, comment_id = ''c1'', body = ''first'', comment_score = 9 \<rparr>,
            \<lparr> rank = 2, comment_id = ''c4'', body = ''second'', comment_score = 6 \<rparr>]]]
   \<and> of_nat (length [CleanExportItem (extractPost postA)
           [\<lparr> rank = 1, comment_id = ''c1'', body = ''first'', comment_score = 9 \<rparr>,
            \<lparr> rank = 2, comment_id = ''c4'', body = ''second'', comment_score = 6 \<rparr>]])
       \<le> postCount scenarioConfig
   \<and> scrapeConfigSchema scenarioConfig
   \<and> whole (postCount scenarioConfig) \<and> whole (skipPosts scenarioConfig)"
proof -
  from one_terminal_event [of scenarioNet scenarioConfig] obtain tr terminal where
    "apiScrape scenarioNet (Inr scenarioConfig) = tr @ [Emit terminal, End]"
    "\<forall>message data.
        terminal = Complete message data \<longrightarrow>
        scrapeConfigSchema scenarioConfig \<longrightarrow> whole (postCount scenarioConfig) \<longrightarrow>
        whole (skipPosts scenarioConfig) \<longrightarrow>
        of_nat (length data) \<le> postCount scenarioConfig"
    by blast
  moreover have "postCount scenarioConfig = 2" "scrapeConfigSchema scenarioConfig"
    "whole (postCount scenarioConfig)" "whole (skipPosts scenarioConfig)"
    by (simp_all add: scenarioConfig_def scrapeConfigSchema_def whole_def)
  ultimately show ?thesis
    by (simp add: scenario_run scenarioTrace_def)
qed

text \<open>
  C1, as the specification words it, fails for a request with a post count of one and a half
  and a skip of a half, which the schema accepts: the loop collects two posts, \<open>slice\<close>
  keeps both, and the data of the \<open>complete\<close> event holds two records.
\<close>

theorem complete_data_counterexample:
  "scrapeConfigSchema halfConfig
   \<and> events (apiScrape openNet (Inr halfConfig)) =
       [Progress ''Fetching posts (will skip first 0.5)...'' 0 (Some 0) (Some 0),
        Progress ''Found 0.5 text posts (skipped 0.5)...'' (1 / 2) None None,
        Progress ''Found 1.5 text posts (skipped 0.5)...'' (3 / 2) None None,
        Progress ''Processing post 1/2...'' 2 (Some 0) (Some 0),
        Progress ''Processing post 2/2...'' 2 (Some 1) (Some 2),
        Progress ''Finalizing...'' 2 (Some 2) (Some 4),
        Complete ''Complete! Collected 2 posts with 4 comments.''
          [CleanExportItem (extractPost postB)
             [\<lparr> rank = 1, comment_id = ''c1'', body = ''first'', comment_score = 9 \<rparr>,
              \<lparr> rank = 2, comment_id = ''c4'', body = ''second'', comment_score = 6 \<rparr>],
           CleanExportItem (extractPost postA)
             [\<lparr> rank = 1, comment_id = ''c1'', body = ''first'', comment_score = 9 \<rparr>,
              \<lparr> rank = 2, comment_id = ''c4'', body = ''second'', comment_score = 6 \<rparr>]]]
   \<and> \<not> of_nat (length
         [CleanExportItem (extractPost postB)
            [\<lparr> rank = 1, comment_id = ''c1'', body = ''first'', comment_score = 9 \<rparr>,
             \<lparr> rank = 2, comment_id = ''c4'', body = ''second'', comment_score = 6 \<rparr>],
          CleanExportItem (extractPost postA)
            [\<lparr> rank = 1, comment_id = ''c1'', body = ''first'', comment_score = 9 \<rparr>,
             \<lparr> rank = 2, comment_id = ''c4'', body = ''second'', comment_score = 6 \<rparr>]])
       \<le> postCount halfConfig"
  by code_simp

text \<open>
  C7. When the listing yields some posts, the run ends with the final progress event, the
  \<open>complete\<close> event and the end of the response, whatever the comment fetches answer. The
  data holds one record for each post whose comment fetch succeeded, in order, and none for a
  post whose comment fetch failed; the comments collected are the sum of the comment counts
  of the posts whose fetch succeeded.
\<close>

theorem failed_comment_fetch_skipped:
  assumes "fetchPosts net (subreddit config) (sortBy config) (postCount config)
             (skipPosts config) 0 = (Inr posts, tr, n1)"
    and "posts \<noteq> []"
  shows "\<exists>tr0.
           apiScrape net (Inr config) =
             tr0
             @ [Emit (Progress ''Finalizing...'' (of_nat (length posts)) (Some (length posts))
                        (Some (sum_list (map (\<lambda>(p, cs). length cs)
                                 (commented net (commentsPerPost config) posts n1))))),
                Emit (Complete
                        (completeMessage config (length posts)
                           (sum_list (map (\<lambda>(p, cs). length cs)
                              (commented net (commentsPerPost config) posts n1))))
                        (map (\<lambda>(p, cs). exportRecord (exportMode config) p cs)
                           (commented net (commentsPerPost config) posts n1))),
                End]
           \<and> (\<forall>e\<in>set (events tr0). \<not> isTerminal e)"
proof (cases rule: scrapeStream_cases [of net config 0])
  case (listing_failed message error tr2 n2)
  with assms show ?thesis by simp
next
  case (no_posts message tr2 n2)
  with assms show ?thesis by simp
next
  case (completed message posts2 tr2 n2 results totalComments tr3 n3)
  with assms(1) have same: "posts2 = posts" "tr2 = tr" "n2 = n1" by simp_all
  from postLoop_results [OF completed(3)] same
  have out: "results = map (\<lambda>(p, cs). exportRecord (exportMode config) p cs)
                         (commented net (commentsPerPost config) posts n1)"
    "totalComments = sum_list (map (\<lambda>(p, cs). length cs)
                         (commented net (commentsPerPost config) posts n1))"
    by (simp_all add: commented_def)
  from fetchPosts_events [OF completed(1)] have "\<forall>e\<in>set (events tr2). \<not> isTerminal e"
    by (auto simp: isTerminal_postProgress)
  moreover from postLoop_events [OF completed(3)]
  have "\<forall>e\<in>set (events tr3). \<not> isTerminal e" by blast
  ultimately show ?thesis using completed(4) same out
    by (intro exI [of _ "FlushHeaders # Emit (Progress message 0 (Some 0) (Some 0)) # tr @ tr3"])
       (auto simp: apiScrape_def)
qed

lemma scenario_commented:
  "commented scenarioNet (commentsPerPost scenarioConfig)
     [extractPost postB, extractPost postA] 1 =
     [(extractPost postA,
       [\<lparr> rank = 1, comment_id = ''c1'', body = ''first'', comment_score = 9 \<rparr>,
        \<lparr> rank = 2, comment_id = ''c4'', body = ''second'', comment_score = 6 \<rparr>])]"
  by code_simp

lemma scenario_outcomes:
  "commentOutcomes scenarioNet (commentsPerPost scenarioConfig)
     [extractPost postB, extractPost postA] 1 =
     [Inl (Error blockedMessage),
      Inr [\<lparr> rank = 1, comment_id = ''c1'', body = ''first'', comment_score = 9 \<rparr>,
           \<lparr> rank = 2, comment_id = ''c4'', body = ''second'', comment_score = 6 \<rparr>]]"
  by code_simp

theorem failed_comment_fetch_skipped_witness:
  "commentOutcomes scenarioNet (commentsPerPost scenarioConfig)
     [extractPost postB, extractPost postA] 1 =
     [Inl (Error blockedMessage),
      Inr [\<lparr> rank = 1, comment_id = ''c1'', body = ''first'', comment_score = 9 \<rparr>,
           \<lparr> rank = 2, comment_id = ''c4'', body = ''second'', comment_score = 6 \<rparr>]]
   \<and> (\<exists>tr0. apiScrape scenarioNet (Inr scenarioConfig) =
          tr0 @ [Emit (Progress ''Finalizing...'' 2 (Some 2) (Some 2)),
                 Emit (Complete (completeMessage scenarioConfig 2 2)
                   [CleanExportItem (extractPost postA)
                      [\<lparr> rank = 1, comment_id = ''c1'', body = ''first'', comment_score = 9 \<rparr>,
                       \<lparr> rank = 2, comment_id = ''c4'', body = ''second'', comment_score = 6 \<rparr>]]),
                 End])"
proof -
  note run = failed_comment_fetch_skipped [OF scenario_posts, unfolded scenario_commented]
  then show ?thesis
    using scenario_outcomes
    by (auto simp: exportRecord_def scenarioConfig_def numeral_2_eq_2 [symmetric])
qed

text \<open>
  C5, at a concrete run. The comment fetch for post \<open>b\<close> fails on both hosts and the one
  for post \<open>a\<close> succeeds: the request for \<open>a\<close> follows the failed requests for \<open>b\<close>
  with no delay in between, and the only delay of the run follows the fetch that succeeded.
\<close>

theorem no_delay_after_failed_comment_fetch:
  "requestsAndDelays (apiScrape scenarioNet (Inr scenarioConfig)) =
     [Fetch ''https://www.reddit.com/r/x/new.json?limit=100''
        (okResponse (Listing \<lparr> listing_children = Some [imagePost, postB, postA],
                               listing_after = None \<rparr>)),
      Fetch ''https://www.reddit.com/r/x/comments/b/second/.json?limit=500&sort=top''
        (statusResponse 403),
      Fetch ''https://old.reddit.com/r/x/comments/b/second/.json?limit=500&sort=top''
        (statusResponse 403),
      Fetch ''https://www.reddit.com/r/x/comments/a/first/.json?limit=500&sort=top''
        (okResponse (Thread [CommentListing [], CommentListing someComments])),
      Sleep 2000]"
  by (simp add: scenario_run scenarioTrace_def)



section \<open>The posts found, as the progress events report them\<close>

lemma of_nat_diff_max: "(of_nat (m - s) :: number) = max 0 (of_nat m - of_nat s)"
  by (cases "s \<le> m") (simp_all add: of_nat_diff max_def)

lemma found_progress:
  "concat (map (found \<circ> (\<lambda>k. postProgress k (of_nat s))) ks) = map (\<lambda>k. of_nat (k - s)) ks"
  by (induction ks) (simp_all add: found_postProgress of_nat_diff_max)

lemma sorted_diffs: "sorted (map (\<lambda>k. (of_nat (k - s) :: number)) [a..<b])"
  by (induction b) (auto simp: sorted_append)

lemma sorted_constant: "\<forall>x\<in>set xs. x = (c::number) \<Longrightarrow> sorted xs"
  by (induction xs) auto

lemma found_rest:
  "\<forall>e\<in>set rest. found e = [] \<or> found e = [c] \<Longrightarrow> \<forall>x\<in>set (concat (map found rest)). x = c"
  by (induction rest) auto

text \<open>
  The numbers of posts found along a stream that starts with the initial event, goes on with
  one event per qualifying post, and ends with events that report the final number or none,
  when the skip count \<open>s\<close> and the target count \<open>t\<close> are whole.
\<close>

lemma found_sequence:
  assumes m: "m \<le> s + t"
    and rest: "\<forall>e\<in>set rest. found e = [] \<or> found e = [of_nat (m - s)]"
    and evs: "evs = Progress message 0 p c # map (\<lambda>k. postProgress k (of_nat s)) [1..<Suc m] @ rest"
  shows "sorted (concat (map found evs)) \<and> (\<forall>f\<in>set (concat (map found evs)). f \<le> of_nat t)"
proof -
  let ?mid = "map (\<lambda>k. (of_nat (k - s) :: number)) [1..<Suc m]"
  let ?end = "concat (map found rest)"
  have fs: "concat (map found evs) = 0 # ?mid @ ?end"
    unfolding evs by (simp add: found_progress del: upt_Suc)
  have e: "\<forall>x\<in>set ?end. x = of_nat (m - s)"
    using found_rest [OF rest] .
  have mid: "\<forall>x\<in>set ?mid. x \<le> of_nat (m - s)"
    by (auto simp del: upt_Suc)
  have top: "(of_nat (m - s) :: number) \<le> of_nat t"
    using m by simp
  have "sorted ?mid"
    by (rule sorted_diffs)
  moreover have "sorted ?end"
    by (rule sorted_constant [OF e])
  moreover have "\<forall>x\<in>set ?mid. \<forall>y\<in>set ?end. x \<le> y"
    using mid e by fastforce
  ultimately have "sorted (?mid @ ?end)"
    by (simp only: sorted_append)
  moreover have "\<forall>f\<in>set (?mid @ ?end). f \<le> of_nat t"
    using e mid top by fastforce
  moreover have "\<forall>f\<in>set (?mid @ ?end). 0 \<le> f"
    using e by fastforce
  ultimately show ?thesis
    unfolding fs by simp
qed

text \<open>
  C10, for whole counts. Take a configuration that the schema accepts and whose \<open>postCount\<close>
  and \<open>skipPosts\<close> are whole numbers. Along the events of a run, the numbers of posts found
  never decrease and never exceed \<open>postCount\<close>. The events are the initial one, then one
  for each qualifying post in the order found, the \<open>k\<close>-th of which reports 0 as long as
  \<open>k\<close> is within the skip window, then events that report the final number or none.
\<close>

theorem postsFound_monotone:
  assumes "scrapeConfigSchema config"
    and "whole (postCount config)" and "whole (skipPosts config)"
  shows "sorted (concat (map found (events (apiScrape net (Inr config)))))
   \<and> (\<forall>f\<in>set (concat (map found (events (apiScrape net (Inr config))))). f \<le> postCount config)
   \<and> (\<exists>message m rest.
         events (apiScrape net (Inr config)) =
           Progress message 0 (Some 0) (Some 0)
           # map (\<lambda>k. postProgress k (skipPosts config)) [1..<Suc m] @ rest
         \<and> (\<forall>k. of_nat k \<le> skipPosts config \<longrightarrow> found (postProgress k (skipPosts config)) = [0])
         \<and> (\<forall>e\<in>set rest. found e = [] \<or> found e = [max 0 (of_nat m - skipPosts config)]))"
proof -
  from assms(1) have "0 \<le> postCount config" "0 \<le> skipPosts config"
    by (simp_all add: scrapeConfigSchema_def)
  with assms(2,3) obtain t s where t: "postCount config = of_nat t"
    and s: "skipPosts config = of_nat s"
    by (metis whole_nat)
  have shape: "\<exists>message m rest.
      m \<le> s + t
      \<and> events (apiScrape net (Inr config)) =
           Progress message 0 (Some 0) (Some 0)
           # map (\<lambda>k. postProgress k (of_nat s)) [1..<Suc m] @ rest
      \<and> (\<forall>e\<in>set rest. found e = [] \<or> found e = [of_nat (m - s)])"
  proof (cases rule: scrapeStream_cases [of net config 0])
    case (listing_failed message error tr n1)
    from fetchPosts_events [OF listing_failed(1)] obtain m where
      "m \<le> s + t"
      "events tr = map (\<lambda>k. postProgress k (of_nat s)) [1..<Suc m]"
      unfolding s t needed_add by auto
    with listing_failed(2) show ?thesis
      by (intro exI [of _ message] exI [of _ m] exI [of _ "[ErrorEvent (errorMessage error)]"])
         (simp add: apiScrape_def del: upt_Suc)
  next
    case (no_posts message tr n1)
    from fetchPosts_events [OF no_posts(1)] obtain m where
      "m \<le> s + t"
      "events tr = map (\<lambda>k. postProgress k (of_nat s)) [1..<Suc m]"
      unfolding s t needed_add by auto
    with no_posts(2) show ?thesis
      by (intro exI [of _ message] exI [of _ m]
            exI [of _ "[ErrorEvent ''No text posts found in this subreddit.'']"])
         (simp add: apiScrape_def del: upt_Suc)
  next
    case (completed message posts tr n1 results totalComments tr2 n2)
    from fetchPosts_events [OF completed(1)] obtain m allPosts where
      m: "m \<le> s + t"
      "events tr = map (\<lambda>k. postProgress k (of_nat s)) [1..<Suc m]"
      "length allPosts = m" "posts = take t (drop s allPosts)"
      unfolding s t needed_add slice_whole by auto
    from m(1,3,4) have len: "length posts = m - s" by auto
    let ?rest = "events tr2
       @ [Progress ''Finalizing...'' (of_nat (length posts)) (Some (length posts))
            (Some totalComments),
          Complete (completeMessage config (length posts) totalComments) results]"
    from postLoop_events [OF completed(3)] len
    have "\<forall>e\<in>set ?rest. found e = [] \<or> found e = [of_nat (m - s)]"
      by auto
    with m(1,2) completed(4) show ?thesis
      by (intro exI [of _ message] exI [of _ m] exI [of _ ?rest])
         (simp add: apiScrape_def del: upt_Suc)
  qed
  then obtain message m rest where
    sh: "m \<le> s + t"
       "events (apiScrape net (Inr config)) =
           Progress message 0 (Some 0) (Some 0)
           # map (\<lambda>k. postProgress k (of_nat s)) [1..<Suc m] @ rest"
       "\<forall>e\<in>set rest. found e = [] \<or> found e = [of_nat (m - s)]"
    by blast
  have window: "found (postProgress k (skipPosts config)) = [0]"
    if "of_nat k \<le> skipPosts config" for k
    using that by (simp add: found_postProgress max_def)
  from found_sequence [OF sh(1) sh(3) sh(2)]
  have "sorted (concat (map found (events (apiScrape net (Inr config)))))"
    "\<forall>f\<in>set (concat (map found (events (apiScrape net (Inr config))))). f \<le> postCount config"
    unfolding t by blast+
  moreover have "\<exists>message m rest.
         events (apiScrape net (Inr config)) =
           Progress message 0 (Some 0) (Some 0)
           # map (\<lambda>k. postProgress k (skipPosts config)) [1..<Suc m] @ rest
         \<and> (\<forall>k. of_nat k \<le> skipPosts config \<longrightarrow> found (postProgress k (skipPosts config)) = [0])
         \<and> (\<forall>e\<in>set rest. found e = [] \<or> found e = [max 0 (of_nat m - skipPosts config)])"
    using sh(2,3) window unfolding s of_nat_diff_max
    by (intro exI [of _ message] exI [of _ m] exI [of _ rest]) blast
  ultimately show ?thesis by blast
qed

lemma skip_run:
  "concat (map found (events (apiScrape scenarioNet (Inr skipConfig)))) = [0, 0, 1, 1, 1]"
  by code_simp

lemma skipConfig_whole:
  "scrapeConfigSchema skipConfig" "whole (postCount skipConfig)" "whole (skipPosts skipConfig)"
  by (simp_all add: skipConfig_def scrapeConfigSchema_def whole_def)

theorem postsFound_monotone_witness:
  "concat (map found (events (apiScrape scenarioNet (Inr skipConfig)))) = [0, 0, 1, 1, 1]
   \<and> sorted [0, 0, 1, 1, 1 :: number]
   \<and> postCount skipConfig = 1
   \<and> scrapeConfigSchema skipConfig
   \<and> whole (postCount skipConfig) \<and> whole (skipPosts skipConfig)"
  using postsFound_monotone [OF skipConfig_whole, of scenarioNet] skip_run skipConfig_whole
  by (simp add: skipConfig_def)

text \<open>
  C10, as the specification words it, fails for a request with a post count of one and a half
  and no skip, which the schema accepts: the loop reports a second post found before it
  stops, and the events that follow report the one post that \<open>slice\<close> keeps.
\<close>

theorem postsFound_counterexample:
  "scrapeConfigSchema fractionConfig
   \<and> concat (map found (events (apiScrape openNet (Inr fractionConfig)))) = [0, 1, 2, 1, 1]
   \<and> \<not> sorted [0, 1, 2, 1, 1 :: number]
   \<and> \<not> (2 :: number) \<le> postCount fractionConfig"
  by code_simp

end
